theory Spec2Isabelle
  imports Main "HOL-Library.FSet"
begin

section \<open>Python string primitives used by the renamer\<close>

text \<open>
  Python strings are sequences of code points. The model uses Isabelle's \<open>string\<close>,
  whose characters are the code points 0..255; every character class below is Python's
  own class restricted to that range.
\<close>

definition is_space :: "char \<Rightarrow> bool" where
  \<comment> \<open>\<open>str.isspace\<close> on one character: TAB..CR, FS..US, SPACE, NEL, NBSP.\<close>
  "is_space c = (let n = (of_char c :: nat) in
     (9 \<le> n \<and> n \<le> 13) \<or> (28 \<le> n \<and> n \<le> 32) \<or> n = 133 \<or> n = 160)"

definition is_digit :: "char \<Rightarrow> bool" where
  \<comment> \<open>the regular-expression class \<open>\d\<close>\<close>
  "is_digit c = (let n = (of_char c :: nat) in 48 \<le> n \<and> n \<le> 57)"

definition strip :: "string \<Rightarrow> string" where
  \<comment> \<open>\<open>s.strip()\<close>\<close>
  "strip s = rev (dropWhile is_space (rev (dropWhile is_space s)))"

definition strip_chars :: "string \<Rightarrow> string \<Rightarrow> string" where
  \<comment> \<open>\<open>s.strip(chars)\<close>\<close>
  "strip_chars chars s =
     rev (dropWhile (\<lambda>c. c \<in> set chars) (rev (dropWhile (\<lambda>c. c \<in> set chars) s)))"

definition replace_char :: "char \<Rightarrow> char \<Rightarrow> string \<Rightarrow> string" where
  \<comment> \<open>\<open>s.replace(a, b)\<close> for one-character \<open>a\<close> and \<open>b\<close>\<close>
  "replace_char a b s = map (\<lambda>c. if c = a then b else c) s"

fun split_on :: "char \<Rightarrow> string \<Rightarrow> string list" where
  \<comment> \<open>\<open>s.split(sep)\<close> for a one-character separator; \<open>''.split(sep) == ['']\<close>\<close>
  "split_on sep [] = [[]]"
| "split_on sep (c # cs) =
     (if c = sep then [] # split_on sep cs
      else (case split_on sep cs of
              [] \<Rightarrow> [[c]]
            | w # ws \<Rightarrow> (c # w) # ws))"

fun join :: "string \<Rightarrow> string list \<Rightarrow> string" where
  \<comment> \<open>\<open>sep.join(ws)\<close>\<close>
  "join sep [] = []"
| "join sep [w] = w"
| "join sep (w # v # ws) = w @ sep @ join sep (v # ws)"

definition startswith :: "string \<Rightarrow> string \<Rightarrow> bool" where
  "startswith s p = (take (length p) s = p)"

definition endswith :: "string \<Rightarrow> string \<Rightarrow> bool" where
  "endswith s p = (length p \<le> length s \<and> drop (length s - length p) s = p)"

definition digit_char :: "nat \<Rightarrow> char" where
  "digit_char d = ''0123456789'' ! d"

function str_nat :: "nat \<Rightarrow> string" where
  \<comment> \<open>\<open>str(n)\<close> for a non-negative integer: decimal, no leading zero\<close>
  "str_nat n = (if n < 10 then [digit_char n] else str_nat (n div 10) @ [digit_char (n mod 10)])"
  by pat_completeness auto
termination
  by (relation "measure id") auto

declare str_nat.simps [simp del]

definition lower_char :: "char \<Rightarrow> char" where
  \<comment> \<open>\<open>str.lower\<close> on one character: A..Z and the upper-case letters of 192..222\<close>
  "lower_char c = (let n = (of_char c :: nat) in
     if (65 \<le> n \<and> n \<le> 90) \<or> (192 \<le> n \<and> n \<le> 222 \<and> n \<noteq> 215) then char_of (n + 32) else c)"

definition lower :: "string \<Rightarrow> string" where
  "lower s = map lower_char s"

fun is_in :: "string \<Rightarrow> string \<Rightarrow> bool" where
  \<comment> \<open>the substring test \<open>sub in s\<close>\<close>
  "is_in sub [] = (sub = [])"
| "is_in sub (c # cs) = (startswith (c # cs) sub \<or> is_in sub cs)"

fun split_ws_from :: "string \<Rightarrow> string \<Rightarrow> string list" where
  "split_ws_from cur [] = (if cur = [] then [] else [cur])"
| "split_ws_from cur (c # cs) =
     (if is_space c then (if cur = [] then split_ws_from [] cs else cur # split_ws_from [] cs)
      else split_ws_from (cur @ [c]) cs)"

definition split_ws :: "string \<Rightarrow> string list" where
  \<comment> \<open>\<open>s.split()\<close>: the maximal runs of non-whitespace characters\<close>
  "split_ws s = split_ws_from [] s"

definition is_linebreak :: "char \<Rightarrow> bool" where
  \<comment> \<open>the line boundaries of \<open>str.splitlines\<close>: LF, VT, FF, CR, FS, GS, RS, NEL\<close>
  "is_linebreak c = (let n = (of_char c :: nat) in
     (10 \<le> n \<and> n \<le> 13) \<or> (28 \<le> n \<and> n \<le> 30) \<or> n = 133)"

fun splitlines_from :: "string \<Rightarrow> string \<Rightarrow> string list" where
  "splitlines_from cur [] = (if cur = [] then [] else [cur])"
| "splitlines_from cur [c] = (if is_linebreak c then [cur] else [cur @ [c]])"
| "splitlines_from cur (c # d # cs) =
     (if c = CHR 0x0D \<and> d = CHR 0x0A then cur # splitlines_from [] cs
      else if is_linebreak c then cur # splitlines_from [] (d # cs)
      else splitlines_from (cur @ [c]) (d # cs))"

definition splitlines :: "string \<Rightarrow> string list" where
  \<comment> \<open>\<open>s.splitlines()\<close>; CR LF is one boundary, no empty last line\<close>
  "splitlines s = splitlines_from [] s"

definition split_once :: "char \<Rightarrow> string \<Rightarrow> string list" where
  \<comment> \<open>\<open>s.split(sep, 1)\<close>\<close>
  "split_once sep s =
     (if sep \<in> set s
      then [takeWhile (\<lambda>c. c \<noteq> sep) s, tl (dropWhile (\<lambda>c. c \<noteq> sep) s)]
      else [s])"

definition item :: "'a list \<Rightarrow> nat \<Rightarrow> 'a option" where
  \<comment> \<open>\<open>xs[i]\<close> for \<open>i \<ge> 0\<close>; \<open>None\<close> is IndexError\<close>
  "item xs i = (if i < length xs then Some (xs ! i) else None)"

definition rfind :: "char \<Rightarrow> string \<Rightarrow> int" where
  \<comment> \<open>\<open>s.rfind(c)\<close>: the last index of \<open>c\<close>, or -1\<close>
  "rfind c s =
     (if c \<in> set s then int (length s) - 1 - int (length (takeWhile (\<lambda>d. d \<noteq> c) (rev s)))
      else - 1)"

definition splitext_root :: "string \<Rightarrow> string" where
  \<comment> \<open>\<open>os.path.splitext(p)[0]\<close> (posixpath): cut at the last dot of the last component,
      unless only dots precede it there\<close>
  "splitext_root p =
     (let sepIndex = rfind (CHR ''/'') p; dotIndex = rfind (CHR ''.'') p in
      if dotIndex > sepIndex \<and>
         list_ex (\<lambda>c. c \<noteq> CHR ''.'')
           (take (nat (dotIndex - (sepIndex + 1))) (drop (nat (sepIndex + 1)) p))
      then take (nat dotIndex) p
      else p)"

definition truthy :: "string option \<Rightarrow> bool" where
  \<comment> \<open>truth value of \<open>d.get(k)\<close>: a missing key (None) and the empty string are false\<close>
  "truthy v = (case v of None \<Rightarrow> False | Some s \<Rightarrow> s \<noteq> [])"

definition or_else :: "string option \<Rightarrow> string \<Rightarrow> string" where
  \<comment> \<open>\<open>d.get(k) or rest\<close>\<close>
  "or_else v rest = (case v of None \<Rightarrow> rest | Some s \<Rightarrow> if s \<noteq> [] then s else rest)"

definition get_default :: "string option \<Rightarrow> string" where
  \<comment> \<open>\<open>d.get(k, '')\<close>\<close>
  "get_default v = (case v of None \<Rightarrow> [] | Some s \<Rightarrow> s)"

section \<open>Filename sanitizer (final\_renamer\_fixed.py, p\_optimized.py)\<close>

definition invalid_chars :: string where
  \<comment> \<open>the characters \<open>< > : " / \ | ? *\<close>\<close>
  "invalid_chars =
     [CHR ''<'', CHR ''>'', CHR '':'', CHR 0x22, CHR ''/'', CHR 0x5C, CHR ''|'', CHR ''?'', CHR ''*'']"

definition replace_invalid :: "string \<Rightarrow> string" where
  \<comment> \<open>\<open>for char in invalid_chars: name = name.replace(char, '_')\<close>\<close>
  "replace_invalid name = fold (\<lambda>char name. replace_char char (CHR ''_'') name) invalid_chars name"

definition collapse_underscores :: "string \<Rightarrow> string" where
  \<comment> \<open>\<open>'_'.join(filter(None, name.split('_')))\<close>\<close>
  "collapse_underscores name = join ''_'' (filter (\<lambda>w. w \<noteq> []) (split_on (CHR ''_'') name))"

definition sanitize_filename :: "string \<Rightarrow> string" where
  "sanitize_filename name = strip (collapse_underscores (replace_invalid name))"

section \<open>Collision-free names (get\_unique\_filename)\<close>

definition numbered :: "string \<Rightarrow> string \<Rightarrow> nat \<Rightarrow> string" where
  \<comment> \<open>the f-string \<open>f"{base_name} ({counter}){extension}"\<close>\<close>
  "numbered base_name extension counter = base_name @ '' ('' @ str_nat counter @ '')'' @ extension"

lemma digit_char_inj: "a < 10 \<Longrightarrow> b < 10 \<Longrightarrow> digit_char a = digit_char b \<Longrightarrow> a = b"
proof -
  assume a: "a < 10" and b: "b < 10" and e: "digit_char a = digit_char b"
  have A: "a \<in> {0,1,2,3,4,5,6,7,8,9}" using a by auto
  have B: "b \<in> {0,1,2,3,4,5,6,7,8,9}" using b by auto
  from A B e show ?thesis
    by (auto simp: digit_char_def)
qed

lemma str_nat_nonempty: "str_nat n \<noteq> []"
  by (subst str_nat.simps) simp

lemma str_nat_snoc: "str_nat n = butlast (str_nat n) @ [digit_char (n mod 10)]"
  by (subst (1 2) str_nat.simps) (simp add: butlast_append)

lemma str_nat_butlast: "10 \<le> n \<Longrightarrow> butlast (str_nat n) = str_nat (n div 10)"
  by (subst str_nat.simps) (simp add: butlast_append)

lemma str_nat_butlast_small: "n < 10 \<Longrightarrow> butlast (str_nat n) = []"
  by (subst str_nat.simps) simp

lemma str_nat_inj: "str_nat a = str_nat b \<Longrightarrow> a = b"
proof (induction a arbitrary: b rule: less_induct)
  case (less a)
  have last_eq: "digit_char (a mod 10) = digit_char (b mod 10)"
    using less.prems str_nat_snoc [of a] str_nat_snoc [of b] by (metis last_snoc)
  then have m: "a mod 10 = b mod 10"
    by (intro digit_char_inj) auto
  have bl: "butlast (str_nat a) = butlast (str_nat b)"
    using less.prems by simp
  show ?case
  proof (cases "a < 10")
    case True
    then have "butlast (str_nat b) = []"
      using bl by (simp add: str_nat_butlast_small)
    then have "b < 10"
      using str_nat_butlast [of b] str_nat_nonempty [of "b div 10"] by (cases "b < 10") auto
    with True m show ?thesis by simp
  next
    case False
    then have a10: "10 \<le> a" by simp
    have "b \<ge> 10"
    proof (rule ccontr)
      assume "\<not> 10 \<le> b"
      then have "butlast (str_nat b) = []" by (simp add: str_nat_butlast_small)
      with bl a10 show False
        using str_nat_butlast [of a] str_nat_nonempty [of "a div 10"] by simp
    qed
    with bl a10 have "str_nat (a div 10) = str_nat (b div 10)"
      by (simp add: str_nat_butlast)
    moreover have "a div 10 < a" using a10 by simp
    ultimately have "a div 10 = b div 10"
      using less.IH by blast
    with m show ?thesis
      by (metis div_mult_mod_eq)
  qed
qed

lemma numbered_inj: "numbered b e m = numbered b e n \<Longrightarrow> m = n"
  by (auto simp: numbered_def dest: str_nat_inj)

lemma finite_numbered_in: "finite {k. numbered b e k |\<in>| E}"
proof -
  have "{k. numbered b e k |\<in>| E} = (numbered b e) -` (fset E)"
    by auto
  moreover have "inj (numbered b e)"
    by (auto simp: inj_def dest: numbered_inj)
  ultimately show ?thesis
    by (simp add: finite_vimageI)
qed

function unique_loop :: "string \<Rightarrow> string \<Rightarrow> string fset \<Rightarrow> nat \<Rightarrow> string \<Rightarrow> string" where
  \<comment> \<open>the \<open>while new_filename in existing_files\<close> loop, on the state \<open>(counter, new_filename)\<close>\<close>
  "unique_loop base_name extension existing_files counter new_filename =
     (if new_filename |\<in>| existing_files
      then unique_loop base_name extension existing_files (counter + 1)
             (numbered base_name extension counter)
      else new_filename)"
  by pat_completeness auto
termination
proof (relation "measure (\<lambda>(b, e, E, c, nf).
         2 * card {k. c \<le> k \<and> numbered b e k |\<in>| E} + (if nf |\<in>| E then 1 else 0))",
       goal_cases)
  case 1
  show ?case by simp
next
  case (2 b e E c nf)
  let ?A = "{k. c \<le> k \<and> numbered b e k |\<in>| E}"
  let ?B = "{k. c + 1 \<le> k \<and> numbered b e k |\<in>| E}"
  have fin: "finite ?A"
    by (rule finite_subset [OF _ finite_numbered_in [of b e E]]) auto
  show ?case
  proof (cases "numbered b e c |\<in>| E")
    case True
    then have "c \<in> ?A" "c \<notin> ?B" "?B \<subseteq> ?A" by auto
    then have "?B \<subset> ?A" by blast
    then have "card ?B < card ?A"
      using fin by (rule psubset_card_mono [rotated])
    with 2 True show ?thesis by simp
  next
    case False
    then have "?B = ?A"
      by (auto simp: Suc_le_eq) (metis le_neq_implies_less)
    with 2 False show ?thesis by simp
  qed
qed

declare unique_loop.simps [simp del]

definition get_unique_filename :: "string \<Rightarrow> string \<Rightarrow> string fset \<Rightarrow> string" where
  \<comment> \<open>final\_renamer\_fixed.py; p\_optimized.py runs the same loop on its global set
      \<open>renamed_files\<close> and adds the result to it\<close>
  "get_unique_filename base_name extension existing_files =
     unique_loop base_name extension existing_files 1 (base_name @ extension)"

section \<open>Metadata extraction (final\_renamer\_fixed.py)\<close>

record metadata =
  name :: string
  version :: string
  package :: string
  confidence :: nat

definition quote :: string where
  "quote = [CHR 0x27]"

fun badging_parts :: "string list \<Rightarrow> string \<times> string \<Rightarrow> (string \<times> string) option" where
  \<comment> \<open>\<open>for part in line.split()\<close> on the state \<open>(pkg, ver)\<close>; \<open>None\<close> is an exception\<close>
  "badging_parts [] (pkg, ver) = Some (pkg, ver)"
| "badging_parts (part # parts) (pkg, ver) =
     (if startswith part ''name='' then
        (case item (split_on (CHR ''='') part) 1 of
           None \<Rightarrow> None
         | Some v \<Rightarrow> badging_parts parts (strip_chars quote v, ver))
      else if startswith part ''versionName='' then
        (case item (split_on (CHR ''='') part) 1 of
           None \<Rightarrow> None
         | Some v \<Rightarrow> badging_parts parts (pkg, strip_chars quote v))
      else badging_parts parts (pkg, ver))"

fun badging_lines ::
  "string list \<Rightarrow> string \<times> string \<times> string \<Rightarrow> (string \<times> string \<times> string) option" where
  \<comment> \<open>\<open>for line in result.splitlines()\<close> on the state \<open>(label, pkg, ver)\<close>\<close>
  "badging_lines [] st = Some st"
| "badging_lines (line # lines) (label, pkg, ver) =
     (if startswith line ''package:'' then
        (case badging_parts (split_ws line) (pkg, ver) of
           None \<Rightarrow> None
         | Some (p, v) \<Rightarrow> badging_lines lines (label, p, v))
      else if startswith line ''application-label:'' then
        (case item (split_once (CHR '':'') line) 1 of
           None \<Rightarrow> None
         | Some l \<Rightarrow> badging_lines lines (strip_chars quote l, pkg, ver))
      else badging_lines lines (label, pkg, ver))"

definition extract_apk_metadata :: "string option \<Rightarrow> metadata option" where
  \<comment> \<open>the argument is the text \<open>aapt dump badging\<close> printed, or \<open>None\<close> when
      \<open>check_output\<close> raised (missing tool, non-zero exit, timeout)\<close>
  "extract_apk_metadata out =
     (case out of
        None \<Rightarrow> None
      | Some result \<Rightarrow>
          (case badging_lines (splitlines result) ([], [], []) of
             None \<Rightarrow> None
           | Some (label, pkg, ver) \<Rightarrow>
               Some \<lparr>name = label, version = ver, package = pkg,
                     confidence = (if label \<noteq> [] \<and> pkg \<noteq> [] then 3 else 1)\<rparr>))"

type_synonym plist = "string \<rightharpoonup> string"

record archive =
  namelist :: "string list"
  load_plist :: "string \<Rightarrow> plist option"

definition is_main_info :: "string \<Rightarrow> bool" where
  "is_main_info info_file =
     (is_in ''Payload'' info_file \<and> endswith info_file ''Info.plist'' \<and>
      is_in ''.app/'' info_file \<and>
      \<not> list_ex (\<lambda>x. is_in x info_file)
          [''.bundle/'', ''.framework/'', ''.storyboardc/'', ''GoogleService-Info.plist''])"

definition choose_main_info :: "string list \<Rightarrow> string option" where
  "choose_main_info info_files =
     (case find is_main_info info_files of
        Some f \<Rightarrow> Some f
      | None \<Rightarrow>
          (case find (\<lambda>f. is_in ''.app/'' f \<and> endswith f ''Info.plist'') info_files of
             Some f \<Rightarrow> Some f
           | None \<Rightarrow> item info_files 0))"

definition ipa_fields :: "plist \<Rightarrow> metadata" where
  "ipa_fields info_plist =
     \<lparr>name = or_else (info_plist ''CFBundleDisplayName'')
               (or_else (info_plist ''CFBundleName'')
                 (or_else (info_plist ''CFBundleExecutable'') [])),
      version = or_else (info_plist ''CFBundleShortVersionString'')
                  (or_else (info_plist ''CFBundleVersion'') []),
      package = get_default (info_plist ''CFBundleIdentifier''),
      confidence = (if truthy (info_plist ''CFBundleDisplayName'') then 4
                    else if truthy (info_plist ''CFBundleName'') then 3 else 2)\<rparr>"

definition extract_ipa_metadata :: "archive option \<Rightarrow> metadata option" where
  \<comment> \<open>the argument is the opened archive, or \<open>None\<close> when opening it raised;
      \<open>load_plist\<close> is \<open>None\<close> when extracting or decoding the entry raised\<close>
  "extract_ipa_metadata z =
     (case z of
        None \<Rightarrow> None
      | Some zip_ref \<Rightarrow>
          (let info_files = filter (\<lambda>f. endswith f ''Info.plist'') (namelist zip_ref) in
           if info_files = [] then None
           else (case choose_main_info info_files of
                   None \<Rightarrow> None
                 | Some main_info_file \<Rightarrow>
                     (case load_plist zip_ref main_info_file of
                        None \<Rightarrow> None
                      | Some info_plist \<Rightarrow> Some (ipa_fields info_plist)))))"

text \<open>The result dictionary of \<open>process_file\<close>; \<open>file_path\<close> is its key \<open>file\<close>.\<close>

record result = metadata +
  file_path :: string
  size_bytes :: nat
  status :: string

text \<open>
  The source keeps \<open>size_mb\<close>, the byte size divided by 2^20 and rounded to two decimals
  (a float); the model keeps the byte size it is computed from.
\<close>

record world =
  getsize :: "string \<Rightarrow> nat option"
  badging :: "string \<Rightarrow> string option"
  open_archive :: "string \<Rightarrow> archive option"

definition invalid_result :: "string \<Rightarrow> nat \<Rightarrow> result" where
  "invalid_result path sz =
     \<lparr>name = [], version = [], package = [], confidence = 0,
      file_path = path, size_bytes = sz, status = ''invalid''\<rparr>"

definition result_of :: "string \<Rightarrow> nat \<Rightarrow> metadata option \<Rightarrow> result" where
  "result_of path sz m =
     (case m of
        None \<Rightarrow> invalid_result path sz
      | Some md \<Rightarrow>
          \<lparr>name = name md, version = version md, package = package md,
           confidence = confidence md,
           file_path = path, size_bytes = sz, status = ''valid''\<rparr>)"

definition process_file :: "world \<Rightarrow> string \<Rightarrow> result option" where
  \<comment> \<open>\<open>getsize\<close> is \<open>None\<close> when \<open>os.path.getsize\<close> raises\<close>
  "process_file w path =
     (case getsize w path of
        None \<Rightarrow> Some (invalid_result path 0)
      | Some sz \<Rightarrow>
          if endswith path ''.apk''
          then Some (result_of path sz (extract_apk_metadata (badging w path)))
          else if endswith path ''.ipa''
          then Some (result_of path sz (extract_ipa_metadata (open_archive w path)))
          else None)"

section \<open>The batch: parallel analysis, then sequential renaming (main)\<close>

definition files_to_process :: "string list \<Rightarrow> string list" where
  \<comment> \<open>the listing of the directory, filtered to the two extensions\<close>
  "files_to_process listing = filter (\<lambda>f. endswith f ''.apk'' \<or> endswith f ''.ipa'') listing"

definition phase1 :: "world \<Rightarrow> string list \<Rightarrow> result list" where
  \<comment> \<open>\<open>for future in as_completed(...)\<close>: the results are appended in the order in which
      the worker processes finish; \<open>completed\<close> is that order of the submitted files\<close>
  "phase1 w completed = List.map_filter (process_file w) completed"

definition resolve_app_name :: "(string \<Rightarrow> string) \<Rightarrow> result \<Rightarrow> string" where
  \<comment> \<open>the fallback chain for the base name; \<open>title\<close> is the library function \<open>str.title\<close>\<close>
  "resolve_app_name title r =
     (let app_name =
            (if name r = [] \<or> strip (name r) = [] then
               (if package r \<noteq> [] \<and> strip (package r) \<noteq> [] then
                  (let parts = split_on (CHR ''.'') (package r) in
                   if length parts > 1
                   then title (replace_char (CHR ''_'') (CHR '' '') (last parts))
                   else title (replace_char (CHR ''_'') (CHR '' '') (package r)))
                else splitext_root (file_path r))
             else name r);
          app_name = strip app_name
      in if app_name = [] then ''App_'' @ splitext_root (file_path r) else app_name)"

definition target_base :: "(string \<Rightarrow> string) \<Rightarrow> result \<Rightarrow> string" where
  "target_base title r =
     (let safe_name = sanitize_filename (resolve_app_name title r) in
      if version r \<noteq> [] \<and> strip (version r) \<noteq> []
      then safe_name @ '' v'' @ version r
      else safe_name @ '' v1.0'')"

definition extension_of :: "result \<Rightarrow> string" where
  "extension_of r = (if endswith (file_path r) ''.apk'' then ''.apk'' else ''.ipa'')"

definition max_retries :: nat where
  "max_retries = 5"

definition os_rename ::
  "(string \<Rightarrow> nat \<Rightarrow> bool) \<Rightarrow> nat \<Rightarrow> string fset \<Rightarrow> string \<Rightarrow> string \<Rightarrow> string fset option" where
  \<comment> \<open>\<open>os.rename(src, dst)\<close> on the set of names of the directory. \<open>None\<close> is OSError:
      the environment refuses this attempt (\<open>fails src attempt\<close>: permissions, locks) or
      \<open>src\<close> does not exist; the directory is then unchanged.\<close>
  "os_rename fails attempt names src dst =
     (if fails src attempt \<or> src |\<notin>| names then None
      else Some (finsert dst (names |-| {|src|})))"

fun rename_attempts ::
  "(string \<Rightarrow> nat \<Rightarrow> bool) \<Rightarrow> string \<Rightarrow> nat list \<Rightarrow> string fset \<times> result \<Rightarrow> string fset \<times> result" where
  \<comment> \<open>\<open>for attempt in range(max_retries)\<close>, leaving at the first rename that succeeds\<close>
  "rename_attempts fails new_filename [] (names, r) = (names, r)"
| "rename_attempts fails new_filename (attempt # rest) (names, r) =
     (case os_rename fails attempt names (file_path r) new_filename of
        Some names' \<Rightarrow> (names', r\<lparr>file_path := new_filename\<rparr>)
      | None \<Rightarrow>
          if attempt < max_retries - 1
          then rename_attempts fails new_filename rest (names, r)
          else rename_attempts fails new_filename rest (names, r\<lparr>status := ''invalid''\<rparr>))"

record batch =
  existing_files :: "string fset"
  disk :: "string fset"
  rename_results :: "result list"

definition rename_one ::
  "(string \<Rightarrow> string) \<Rightarrow> (string \<Rightarrow> nat \<Rightarrow> bool) \<Rightarrow> batch \<Rightarrow> result \<Rightarrow> batch" where
  \<comment> \<open>the body of \<open>for result in processing_results\<close>\<close>
  "rename_one title fails st r =
     (if status r = ''valid'' \<and> confidence r \<ge> 1 then
        (let new_filename =
               get_unique_filename (target_base title r) (extension_of r) (existing_files st);
             registry = finsert new_filename (existing_files st);
             (names, r') =
               (if file_path r \<noteq> new_filename
                then rename_attempts fails new_filename [0..<max_retries] (disk st, r)
                else (disk st, r))
         in \<lparr>existing_files = registry, disk = names,
             rename_results = rename_results st @ [r']\<rparr>)
      else st\<lparr>rename_results := rename_results st @ [r]\<rparr>)"

fun phase2 ::
  "(string \<Rightarrow> string) \<Rightarrow> (string \<Rightarrow> nat \<Rightarrow> bool) \<Rightarrow> batch \<Rightarrow> result list \<Rightarrow> batch" where
  "phase2 title fails st [] = st"
| "phase2 title fails st (r # rs) = phase2 title fails (rename_one title fails st r) rs"

definition initial_batch :: "string list \<Rightarrow> batch" where
  \<comment> \<open>the registry is seeded from the listing of the directory; the source lists the
      directory before and after the analysis, which renames nothing, so both listings
      are the one list \<open>listing\<close>\<close>
  "initial_batch listing =
     \<lparr>existing_files = fset_of_list (files_to_process listing),
      disk = fset_of_list listing, rename_results = []\<rparr>"

definition main_batch ::
  "(string \<Rightarrow> string) \<Rightarrow> world \<Rightarrow> (string \<Rightarrow> nat \<Rightarrow> bool) \<Rightarrow> string list \<Rightarrow> string list \<Rightarrow> batch" where
  "main_batch title w fails listing completed =
     phase2 title fails (initial_batch listing) (phase1 w completed)"

definition report :: "batch \<Rightarrow> (string \<times> string \<times> string \<times> string \<times> nat \<times> nat) list" where
  \<comment> \<open>the rows of the CSV file, one for each entry of \<open>rename_results\<close>\<close>
  "report st =
     map (\<lambda>r. (file_path r, name r, package r, version r, size_bytes r, confidence r))
       (rename_results st)"

section \<open>Confidence arbitration (comprehensive\_analysis.py)\<close>

text \<open>
  One entry of \<open>result['methods']\<close>: a dictionary that may hold the keys \<open>label\<close>,
  \<open>app_name\<close>, \<open>version\<close>, \<open>package\<close>, \<open>confidence\<close> and \<open>error\<close>; a missing key
  is \<open>None\<close>. The confidences the source writes are the literals 0, 1, 2 and 3.
\<close>

record method_data =
  m_label :: "string option"
  m_app_name :: "string option"
  m_version :: "string option"
  m_package :: "string option"
  m_confidence :: "nat option"
  m_error :: "string option"

record final_fields =
  final_name :: string
  final_version :: string
  final_package :: string
  final_confidence :: nat

definition initial_final :: final_fields where
  "initial_final = \<lparr>final_name = [], final_version = [], final_package = [], final_confidence = 0\<rparr>"

fun best_of ::
  "(string \<times> method_data) list \<Rightarrow> string option \<times> nat \<Rightarrow> string option \<times> nat" where
  \<comment> \<open>\<open>for method, data in result['methods'].items()\<close> on \<open>(best_method, best_confidence)\<close>\<close>
  "best_of [] st = st"
| "best_of ((method, data) # rest) (best_method, best_confidence) =
     (case m_confidence data of
        Some c \<Rightarrow>
          if c > best_confidence then best_of rest (Some method, c)
          else best_of rest (best_method, best_confidence)
      | None \<Rightarrow> best_of rest (best_method, best_confidence))"

definition label_of :: "method_data \<Rightarrow> string" where
  \<comment> \<open>\<open>method_data.get('label', method_data.get('app_name', ''))\<close>\<close>
  "label_of d = (case m_label d of Some l \<Rightarrow> l | None \<Rightarrow> get_default (m_app_name d))"

definition fields_of :: "method_data \<Rightarrow> nat \<Rightarrow> final_fields" where
  "fields_of d c =
     \<lparr>final_name = label_of d, final_version = get_default (m_version d),
      final_package = get_default (m_package d), final_confidence = c\<rparr>"

definition determine_best :: "(string \<times> method_data) list \<Rightarrow> final_fields" where
  \<comment> \<open>the dictionary \<open>methods\<close> is the list of its items in insertion order;
      \<open>if best_method:\<close> is false for \<open>None\<close> and for the empty string; a failed lookup
      raises, and the handler returns the result with its initial final fields\<close>
  "determine_best methods =
     (case best_of methods (None, 0) of
        (best_method, best_confidence) \<Rightarrow>
          (case best_method of
             None \<Rightarrow> initial_final
           | Some m \<Rightarrow>
               if m = [] then initial_final
               else (case map_of methods m of
                       None \<Rightarrow> initial_final
                     | Some d \<Rightarrow> fields_of d best_confidence)))"

definition aapt_method :: "string \<Rightarrow> string \<Rightarrow> string \<Rightarrow> method_data" where
  \<comment> \<open>the entry \<open>methods['aapt']\<close> written after a successful badging dump\<close>
  "aapt_method label pkg ver =
     \<lparr>m_label = Some label, m_app_name = None, m_version = Some ver, m_package = Some pkg,
      m_confidence = Some (if label \<noteq> [] \<and> pkg \<noteq> [] then 3 else 1), m_error = None\<rparr>"

definition app_name_method :: "string \<Rightarrow> method_data" where
  \<comment> \<open>the entries \<open>methods['aapt_resources']\<close> and \<open>methods['manifest']\<close>\<close>
  "app_name_method app_name =
     \<lparr>m_label = None, m_app_name = Some app_name, m_version = None, m_package = None,
      m_confidence = Some (if app_name \<noteq> [] then 2 else 0), m_error = None\<rparr>"

definition error_method :: "string \<Rightarrow> method_data" where
  "error_method e =
     \<lparr>m_label = None, m_app_name = None, m_version = None, m_package = None,
      m_confidence = Some 0, m_error = Some e\<rparr>"

section \<open>Name fields of the Apple metadata bundle\<close>

definition comprehensive_name :: "plist \<Rightarrow> string \<times> nat" where
  \<comment> \<open>\<open>best_name\<close> and \<open>confidence\<close> of analyze\_ipa\_comprehensive\<close>
  "comprehensive_name info_plist =
     (if get_default (info_plist ''CFBundleDisplayName'') \<noteq> []
      then (get_default (info_plist ''CFBundleDisplayName''), 4)
      else if get_default (info_plist ''CFBundleName'') \<noteq> []
      then (get_default (info_plist ''CFBundleName''), 3)
      else if get_default (info_plist ''CFBundleExecutable'') \<noteq> []
      then (get_default (info_plist ''CFBundleExecutable''), 2)
      else if get_default (info_plist ''CFBundleDisplayNameLocalized'') \<noteq> []
      then (get_default (info_plist ''CFBundleDisplayNameLocalized''), 3)
      else ([], 0))"

definition comprehensive_fields :: "plist \<Rightarrow> final_fields" where
  \<comment> \<open>the final fields analyze\_ipa\_comprehensive writes from the main bundle\<close>
  "comprehensive_fields info_plist =
     \<lparr>final_name = fst (comprehensive_name info_plist),
      final_version =
        (if get_default (info_plist ''CFBundleShortVersionString'') \<noteq> []
         then get_default (info_plist ''CFBundleShortVersionString'')
         else get_default (info_plist ''CFBundleVersion'')),
      final_package = get_default (info_plist ''CFBundleIdentifier''),
      final_confidence = snd (comprehensive_name info_plist)\<rparr>"

definition p_fixed_fields :: "plist \<Rightarrow> string \<times> string \<times> string" where
  \<comment> \<open>\<open>(label, version, package)\<close> of process\_ipa\_metadata in p\_fixed.py\<close>
  "p_fixed_fields info_plist =
     (or_else (info_plist ''CFBundleDisplayName'')
        (or_else (info_plist ''CFBundleName'')
          (or_else (info_plist ''CFBundleExecutable'')
            (or_else (info_plist ''CFBundleDisplayNameLocalized'') []))),
      or_else (info_plist ''CFBundleShortVersionString'')
        (or_else (info_plist ''CFBundleVersion'') []),
      get_default (info_plist ''CFBundleIdentifier''))"

section \<open>Icon selection (extract\_ipa\_icon)\<close>

record zipinfo =
  filename :: string
  file_size :: nat

definition nat_of_digits :: "string \<Rightarrow> nat" where
  \<comment> \<open>\<open>int(ds)\<close> for a non-empty string of decimal digits\<close>
  "nat_of_digits ds = foldl (\<lambda>a d. 10 * a + (of_char d - 48)) 0 ds"

fun search_dims :: "string \<Rightarrow> (nat \<times> nat) option" where
  \<comment> \<open>\<open>re.search(r'(\d+)x(\d+)', s)\<close>, giving \<open>(int(group 1), int(group 2))\<close>: the leftmost
      position where a maximal run of digits, an \<open>x\<close> and a digit follow one another\<close>
  "search_dims [] = None"
| "search_dims (c # cs) =
     (let w = takeWhile is_digit (c # cs); r = dropWhile is_digit (c # cs) in
      if w \<noteq> [] \<and> startswith r ''x'' \<and> takeWhile is_digit (tl r) \<noteq> []
      then Some (nat_of_digits w, nat_of_digits (takeWhile is_digit (tl r)))
      else search_dims cs)"

definition is_icon_entry :: "zipinfo \<Rightarrow> bool" where
  "is_icon_entry file_info =
     (endswith (filename file_info) ''.png'' \<and>
      list_ex (\<lambda>pattern. is_in pattern (lower (filename file_info)))
        [''appicon'', ''icon'', ''app_icon'', ''applicationicon''])"

definition icon_step :: "zipinfo option \<times> nat \<Rightarrow> zipinfo \<Rightarrow> zipinfo option \<times> nat" where
  \<comment> \<open>the body of \<open>for icon_info in icon_files\<close> on \<open>(best_icon, best_resolution)\<close>\<close>
  "icon_step st icon_info =
     (case st of (best_icon, best_resolution) \<Rightarrow>
        (case search_dims (lower (filename icon_info)) of
           Some (width, height) \<Rightarrow>
             if width = height \<and> width * height > best_resolution
             then (Some icon_info, width * height)
             else (best_icon, best_resolution)
         | None \<Rightarrow>
             if file_size icon_info > best_resolution
             then (Some icon_info, file_size icon_info)
             else (best_icon, best_resolution)))"

definition icon_loop :: "zipinfo list \<Rightarrow> zipinfo option \<times> nat" where
  "icon_loop icon_files = foldl icon_step (None, 0) icon_files"

definition select_icon :: "zipinfo list \<Rightarrow> zipinfo option" where
  \<comment> \<open>the entry extract\_ipa\_icon extracts from the entries of the archive, if any\<close>
  "select_icon infolist = fst (icon_loop (filter is_icon_entry infolist))"

section \<open>Notions the properties are stated with\<close>

definition confidence_of :: "method_data \<Rightarrow> nat" where
  \<comment> \<open>the confidence of a candidate; a candidate without the key is skipped by the loop
      and counts as 0\<close>
  "confidence_of d = (case m_confidence d of Some c \<Rightarrow> c | None \<Rightarrow> 0)"

definition max_confidence :: "(string \<times> method_data) list \<Rightarrow> nat" where
  \<comment> \<open>the maximum confidence among the candidates (0 when there is none)\<close>
  "max_confidence methods = Max (insert 0 (set (map (\<lambda>(m, d). confidence_of d) methods)))"

definition bundle_field :: "plist \<Rightarrow> string \<Rightarrow> string" where
  \<comment> \<open>a field of the decoded bundle, empty when the key is absent\<close>
  "bundle_field info_plist k = get_default (info_plist k)"

definition spec_name_priority :: "plist \<Rightarrow> string \<times> nat" where
  \<comment> \<open>the name and confidence in the priority order the specification words:
      display name 4, localized display name 3, bundle name 3, executable name 2\<close>
  "spec_name_priority info_plist =
     (if bundle_field info_plist ''CFBundleDisplayName'' \<noteq> []
      then (bundle_field info_plist ''CFBundleDisplayName'', 4)
      else if bundle_field info_plist ''CFBundleDisplayNameLocalized'' \<noteq> []
      then (bundle_field info_plist ''CFBundleDisplayNameLocalized'', 3)
      else if bundle_field info_plist ''CFBundleName'' \<noteq> []
      then (bundle_field info_plist ''CFBundleName'', 3)
      else if bundle_field info_plist ''CFBundleExecutable'' \<noteq> []
      then (bundle_field info_plist ''CFBundleExecutable'', 2)
      else ([], 0))"

definition dims_of :: "zipinfo \<Rightarrow> (nat \<times> nat) option" where
  \<comment> \<open>the width and height parsed from the lower-cased entry name, if any\<close>
  "dims_of a = search_dims (lower (filename a))"

definition is_square :: "zipinfo \<Rightarrow> bool" where
  \<comment> \<open>a square asset: dimensions are parseable and the parsed width equals the parsed height\<close>
  "is_square a = (case dims_of a of Some (w, h) \<Rightarrow> w = h | None \<Rightarrow> False)"

definition score :: "zipinfo \<Rightarrow> nat" where
  \<comment> \<open>the resolution of an asset, or its byte size when no dimensions are parseable\<close>
  "score a = (case dims_of a of Some (w, h) \<Rightarrow> w * h | None \<Rightarrow> file_size a)"

definition icon_inv :: "zipinfo option \<times> nat \<Rightarrow> bool" where
  "icon_inv st =
     (case fst st of
        None \<Rightarrow> snd st = 0
      | Some b \<Rightarrow> (is_square b \<or> dims_of b = None) \<and> snd st = score b)"

text \<open>The two lines of the badging dump of the Android scenario, and the other lines.\<close>

definition package_line :: string where
  "package_line = ''package: name='com.example.app' versionName='2.3'' @ quote"

definition label_line :: string where
  "label_line = ''application-label:'Example'' @ quote"

definition other_line :: "string \<Rightarrow> bool" where
  "other_line l = (\<not> startswith l ''package:'' \<and> \<not> startswith l ''application-label:'')"

text \<open>Concrete worlds for the two scenarios: one package file in the directory.\<close>

definition scenario_badging :: string where
  "scenario_badging = package_line @ [CHR 0x0A] @ label_line @ [CHR 0x0A]"

definition android_world :: world where
  "android_world =
     \<lparr>getsize = (\<lambda>f. Some 4096), badging = (\<lambda>f. Some scenario_badging),
      open_archive = (\<lambda>f. None)\<rparr>"

definition never_fails :: "string \<Rightarrow> nat \<Rightarrow> bool" where
  "never_fails f attempt = False"

definition widgets_plist :: plist where
  "widgets_plist = [''CFBundleDisplayName'' \<mapsto> [], ''CFBundleName'' \<mapsto> ''Widgets'',
                    ''CFBundleIdentifier'' \<mapsto> ''com.example.widgets'']"

definition widgets_archive :: archive where
  "widgets_archive =
     \<lparr>namelist = [''Payload/'', ''Payload/Widgets.app/Info.plist'', ''Payload/Widgets.app/Widgets''],
      load_plist = (\<lambda>entry. Some widgets_plist)\<rparr>"

definition apple_world :: world where
  "apple_world =
     \<lparr>getsize = (\<lambda>f. Some 4096), badging = (\<lambda>f. None),
      open_archive = (\<lambda>f. Some widgets_archive)\<rparr>"

text \<open>A name without two adjacent underscores.\<close>

fun no_double :: "string \<Rightarrow> bool" where
  "no_double [] = True"
| "no_double [c] = True"
| "no_double (c # d # cs) = (\<not> (c = CHR ''_'' \<and> d = CHR ''_'') \<and> no_double (d # cs))"

text \<open>
  The sequential phase, as the properties describe it: the names are assigned in the order
  of the results, each valid result taking the first free name with respect to the
  registry and the names assigned before it; a result keeps its file and becomes invalid
  when every attempt to rename it is refused, and carries the assigned name otherwise.
\<close>

definition all_attempts_fail :: "(string \<Rightarrow> nat \<Rightarrow> bool) \<Rightarrow> string \<Rightarrow> bool" where
  "all_attempts_fail fails f = list_all (fails f) [0..<max_retries]"

definition outcome :: "(string \<Rightarrow> nat \<Rightarrow> bool) \<Rightarrow> result \<Rightarrow> string option \<Rightarrow> result" where
  "outcome fails r a =
     (case a of
        None \<Rightarrow> r
      | Some n \<Rightarrow>
          if all_attempts_fail fails (file_path r) then r\<lparr>status := ''invalid''\<rparr>
          else r\<lparr>file_path := n\<rparr>)"

fun assign_names :: "(string \<Rightarrow> string) \<Rightarrow> string fset \<Rightarrow> result list \<Rightarrow> string option list" where
  "assign_names title E [] = []"
| "assign_names title E (r # rs) =
     (if status r = ''valid'' \<and> 1 \<le> confidence r
      then (let n = get_unique_filename (target_base title r) (extension_of r) E
            in Some n # assign_names title (finsert n E) rs)
      else None # assign_names title E rs)"

fun somes :: "'a option list \<Rightarrow> 'a list" where
  "somes [] = []"
| "somes (None # xs) = somes xs"
| "somes (Some x # xs) = x # somes xs"

definition batch_inv :: "batch \<Rightarrow> result list \<Rightarrow> bool" where
  "batch_inv st rs =
     (distinct (map file_path (rename_results st) @ map file_path rs) \<and>
      set (map file_path (rename_results st) @ map file_path rs) \<subseteq> fset (existing_files st) \<and>
      set (map file_path (rename_results st) @ map file_path rs) \<subseteq> fset (disk st))"

text \<open>A directory with two Apple packages that both resolve to the name Game.\<close>

definition game_archive :: "string \<Rightarrow> archive" where
  "game_archive ident =
     \<lparr>namelist = [''Payload/Game.app/Info.plist''],
      load_plist = (\<lambda>entry. Some [''CFBundleName'' \<mapsto> ''Game'', ''CFBundleIdentifier'' \<mapsto> ident])\<rparr>"

definition game_world :: world where
  "game_world =
     \<lparr>getsize = (\<lambda>f. Some 4096), badging = (\<lambda>f. None),
      open_archive = (\<lambda>f. Some (game_archive
         (if f = ''a.ipa'' then ''com.example.first'' else ''com.example.second'')))\<rparr>"

definition first_fails :: "string \<Rightarrow> nat \<Rightarrow> bool" where
  "first_fails f attempt = (f = ''a.ipa'')"

definition game_result :: "string \<Rightarrow> string \<Rightarrow> result" where
  "game_result ident path =
     \<lparr>name = ''Game'', version = [], package = ident, confidence = 3,
      file_path = path, size_bytes = 4096, status = ''valid''\<rparr>"

section \<open>Properties of get\_unique\_filename\<close>

lemma unique_loop_free: "nf |\<notin>| E \<Longrightarrow> unique_loop b e E c nf = nf"
  by (subst unique_loop.simps) simp

lemma unique_loop_taken:
  "nf |\<in>| E \<Longrightarrow>
   \<exists>n\<ge>c. unique_loop b e E c nf = numbered b e n \<and> numbered b e n |\<notin>| E \<and>
          (\<forall>m. c \<le> m \<and> m < n \<longrightarrow> numbered b e m |\<in>| E)"
proof (induction b e E c nf rule: unique_loop.induct)
  case (1 b e E c nf)
  have step: "unique_loop b e E c nf = unique_loop b e E (c + 1) (numbered b e c)"
    using "1.prems" by (subst unique_loop.simps) simp
  show ?case
  proof (cases "numbered b e c |\<in>| E")
    case False
    then have "unique_loop b e E c nf = numbered b e c"
      using step by (simp add: unique_loop_free)
    with False show ?thesis by auto
  next
    case True
    from "1.IH" [OF "1.prems" True] obtain n where n: "c + 1 \<le> n"
      "unique_loop b e E (c + 1) (numbered b e c) = numbered b e n"
      "numbered b e n |\<notin>| E" "\<forall>m. c + 1 \<le> m \<and> m < n \<longrightarrow> numbered b e m |\<in>| E"
      by blast
    have "\<forall>m. c \<le> m \<and> m < n \<longrightarrow> numbered b e m |\<in>| E"
    proof (intro allI impI)
      fix m assume m: "c \<le> m \<and> m < n"
      show "numbered b e m |\<in>| E"
      proof (cases "m = c")
        case True with \<open>numbered b e c |\<in>| E\<close> show ?thesis by simp
      next
        case False with m n(4) show ?thesis by simp
      qed
    qed
    with n step show ?thesis
      by (intro exI [of _ n]) simp
  qed
qed

lemma get_unique_filename_fresh: "get_unique_filename b e E |\<notin>| E"
proof (cases "b @ e |\<in>| E")
  case False
  then show ?thesis by (simp add: get_unique_filename_def unique_loop_free)
next
  case True
  from unique_loop_taken [OF True, of 1 b e] show ?thesis
    unfolding get_unique_filename_def by auto
qed

lemma get_unique_filename_shape:
  "get_unique_filename b e E = b @ e \<or> (\<exists>n. get_unique_filename b e E = numbered b e n)"
proof (cases "b @ e |\<in>| E")
  case False
  then show ?thesis by (simp add: get_unique_filename_def unique_loop_free)
next
  case True
  from unique_loop_taken [OF True, of 1 b e] show ?thesis
    unfolding get_unique_filename_def by auto
qed

text \<open>
  Claim C10. \<open>get_unique_filename\<close> is a total function of the base name, the extension
  and the finite registry (its loop terminates: see the termination proof of
  \<open>unique_loop\<close>). It returns \<open>base + extension\<close> when that name is not in the
  registry; otherwise it returns \<open>base (n) extension\<close> for the least \<open>n \<ge> 1\<close> whose
  name is not in the registry. The returned name is never in the registry.
\<close>

theorem get_unique_filename_least:
  "get_unique_filename b e E |\<notin>| E \<and>
   (b @ e |\<notin>| E \<longrightarrow> get_unique_filename b e E = b @ e) \<and>
   (b @ e |\<in>| E \<longrightarrow>
      (\<exists>n\<ge>1. get_unique_filename b e E = numbered b e n \<and>
             (\<forall>m. 1 \<le> m \<and> m < n \<longrightarrow> numbered b e m |\<in>| E)))"
proof (cases "b @ e |\<in>| E")
  case False
  then show ?thesis
    by (simp add: get_unique_filename_def unique_loop_free)
next
  case True
  from unique_loop_taken [OF True, of 1 b e] show ?thesis
    using True unfolding get_unique_filename_def by auto
qed

theorem get_unique_filename_least_witness:
  "''Game v1.0.ipa'' |\<in>| {|''Game v1.0.ipa'', ''Game v1.0 (1).ipa''|} \<and>
   get_unique_filename ''Game v1.0'' ''.ipa'' {|''Game v1.0.ipa'', ''Game v1.0 (1).ipa''|}
     = ''Game v1.0 (2).ipa'' \<and>
   get_unique_filename ''Game v1.0'' ''.ipa'' {|''Game v1.0.ipa'', ''Game v1.0 (1).ipa''|}
     |\<notin>| {|''Game v1.0.ipa'', ''Game v1.0 (1).ipa''|} \<and>
   get_unique_filename ''Game v1.0'' ''.ipa'' {|''Other.ipa''|} = ''Game v1.0.ipa''"
  using get_unique_filename_least [of "''Game v1.0''" "''.ipa''"
          "{|''Game v1.0.ipa'', ''Game v1.0 (1).ipa''|}"]
        get_unique_filename_least [of "''Game v1.0''" "''.ipa''" "{|''Other.ipa''|}"]
  by (simp add: get_unique_filename_def unique_loop.simps numbered_def str_nat.simps
        digit_char_def)

section \<open>Confidence arbitration: the earliest maximum wins\<close>
lemma max_confidence_Nil: "max_confidence [] = 0"
  by (simp add: max_confidence_def)

lemma max_confidence_Cons:
  "max_confidence ((m, d) # rest) = max (confidence_of d) (max_confidence rest)"
proof -
  let ?A = "insert 0 (set (map (\<lambda>(m, d). confidence_of d) rest))"
  have eq: "insert 0 (set (map (\<lambda>(m, d). confidence_of d) ((m, d) # rest)))
              = insert (confidence_of d) ?A"
    by auto
  have "Max (insert (confidence_of d) ?A) = max (confidence_of d) (Max ?A)"
    by (rule Max_insert) auto
  then show ?thesis
    unfolding max_confidence_def eq .
qed

lemma best_of_skip:
  "list_all (\<lambda>(m, d). confidence_of d \<le> bc) rest \<Longrightarrow> best_of rest (bm, bc) = (bm, bc)"
proof (induction rest)
  case Nil
  show ?case by simp
next
  case (Cons p rest)
  obtain m d where p: "p = (m, d)" by (cases p)
  from Cons show ?case
    by (auto simp: p confidence_of_def split: option.splits)
qed

lemma max_confidence_bound: "list_all (\<lambda>(m, d). confidence_of d \<le> max_confidence methods) methods"
proof -
  have "\<And>x. x \<in> set methods \<Longrightarrow> (case x of (m, d) \<Rightarrow> confidence_of d \<le> max_confidence methods)"
  proof -
    fix x assume x: "x \<in> set methods"
    obtain m d where p: "x = (m, d)" by (cases x)
    have "confidence_of d \<in> insert 0 (set (map (\<lambda>(m, d). confidence_of d) methods))"
      using x p by force
    then have "confidence_of d \<le> max_confidence methods"
      unfolding max_confidence_def by (intro Max_ge) auto
    then show "case x of (m, d) \<Rightarrow> confidence_of d \<le> max_confidence methods"
      by (simp add: p)
  qed
  then show ?thesis by (simp add: list_all_iff)
qed

text \<open>The loop from a state below the maximum of the rest ends at the earliest maximum of the rest.\<close>

lemma best_of_earliest:
  "bc < max_confidence rest \<Longrightarrow>
   \<exists>pre m d post. rest = pre @ (m, d) # post \<and> confidence_of d = max_confidence rest \<and>
     list_all (\<lambda>(m', d'). confidence_of d' < max_confidence rest) pre \<and>
     best_of rest (bm, bc) = (Some m, max_confidence rest)"
proof (induction rest arbitrary: bm bc)
  case Nil
  then show ?case by (simp add: max_confidence_Nil)
next
  case (Cons p rest)
  obtain m d where p: "p = (m, d)" by (cases p)
  let ?M = "max_confidence ((m, d) # rest)"
  have M: "?M = max (confidence_of d) (max_confidence rest)"
    by (rule max_confidence_Cons)
  show ?case
  proof (cases "max_confidence rest \<le> confidence_of d")
    case True
    then have Md: "?M = confidence_of d" using M by simp
    with Cons.prems p have gt: "bc < confidence_of d" by simp
    then obtain c where c: "m_confidence d = Some c" "c = confidence_of d"
      by (cases "m_confidence d") (auto simp: confidence_of_def)
    have "list_all (\<lambda>(m', d'). confidence_of d' \<le> confidence_of d) rest"
      using max_confidence_bound [of rest] True
      by (auto simp: list_all_iff)
    then have "best_of rest (Some m, confidence_of d) = (Some m, confidence_of d)"
      by (rule best_of_skip)
    then have "best_of ((m, d) # rest) (bm, bc) = (Some m, ?M)"
      using c gt Md by simp
    then show ?thesis
      unfolding p using Md by (intro exI [of _ "[]"] exI [of _ m] exI [of _ d] exI [of _ rest]) simp
  next
    case False
    then have lt: "confidence_of d < max_confidence rest" by simp
    then have Mr: "?M = max_confidence rest" using M by simp
    let ?st = "if bc < confidence_of d then (Some m, confidence_of d) else (bm, bc)"
    have step: "best_of ((m, d) # rest) (bm, bc) = best_of rest ?st"
      by (auto simp: confidence_of_def split: option.splits)
    have below: "snd ?st < max_confidence rest"
      using lt Cons.prems p Mr by auto
    from Cons.IH [of "snd ?st" "fst ?st"] below
    obtain pre m' d' post where ih: "rest = pre @ (m', d') # post"
      "confidence_of d' = max_confidence rest"
      "list_all (\<lambda>(m', d'). confidence_of d' < max_confidence rest) pre"
      "best_of rest ?st = (Some m', max_confidence rest)"
      by (metis prod.collapse)
    show ?thesis
      unfolding p
      using ih lt Mr step
      by (intro exI [of _ "(m, d) # pre"] exI [of _ m'] exI [of _ d'] exI [of _ post]) simp
  qed
qed

lemma map_of_earliest:
  "distinct (map fst (pre @ (m, d) # post)) \<Longrightarrow> map_of (pre @ (m, d) # post) m = Some d"
  by (induction pre) (auto simp: rev_image_eqI)

text \<open>
  Claim C1, as amended. The method names of the dictionary are distinct and non-empty (the
  source's are \<open>aapt\<close>, \<open>aapt_resources\<close> and \<open>manifest\<close>). The final confidence is the
  maximum confidence among the candidates. When that maximum is positive, the final label,
  version and package id are those of the earliest candidate that reaches it, so a
  zero-confidence candidate is never the final answer then; the label of the winner is
  not inspected and may be empty. When every candidate has confidence 0, the final label
  is empty and the final confidence is 0.
\<close>

theorem arbiter_earliest_maximum:
  assumes "distinct (map fst methods)" and "[] \<notin> set (map fst methods)"
  shows "final_confidence (determine_best methods) = max_confidence methods \<and>
         (max_confidence methods = 0 \<longrightarrow> determine_best methods = initial_final) \<and>
         (0 < max_confidence methods \<longrightarrow>
            (\<exists>pre m d post. methods = pre @ (m, d) # post \<and>
               confidence_of d = max_confidence methods \<and>
               list_all (\<lambda>(m', d'). confidence_of d' < max_confidence methods) pre \<and>
               determine_best methods = fields_of d (max_confidence methods)))"
proof (cases "max_confidence methods = 0")
  case True
  then have "list_all (\<lambda>(m, d). confidence_of d \<le> 0) methods"
    using max_confidence_bound [of methods] by simp
  then have "best_of methods (None, 0) = (None, 0)"
    by (rule best_of_skip)
  then have "determine_best methods = initial_final"
    by (simp add: determine_best_def)
  with True show ?thesis by (simp add: initial_final_def)
next
  case False
  then have pos: "0 < max_confidence methods" by simp
  from best_of_earliest [OF pos, of None]
  obtain pre m d post where e: "methods = pre @ (m, d) # post"
    "confidence_of d = max_confidence methods"
    "list_all (\<lambda>(m', d'). confidence_of d' < max_confidence methods) pre"
    "best_of methods (None, 0) = (Some m, max_confidence methods)"
    by blast
  have look: "map_of methods m = Some d"
    using assms(1) unfolding e(1) by (rule map_of_earliest)
  have "m \<noteq> []" using assms(2) e(1) by auto
  then have "determine_best methods = fields_of d (max_confidence methods)"
    using e(4) look by (simp add: determine_best_def)
  with e pos show ?thesis
    by (auto simp: fields_of_def)
qed

theorem arbiter_earliest_maximum_witness:
  "distinct (map fst [(''aapt'', aapt_method ''L'' [] ''1''),
                      (''aapt_resources'', app_name_method ''R''),
                      (''manifest'', app_name_method ''M'')]) \<and>
   [] \<notin> set (map fst [(''aapt'', aapt_method ''L'' [] ''1''),
                        (''aapt_resources'', app_name_method ''R''),
                        (''manifest'', app_name_method ''M'')]) \<and>
   final_confidence (determine_best [(''aapt'', aapt_method ''L'' [] ''1''),
                      (''aapt_resources'', app_name_method ''R''),
                      (''manifest'', app_name_method ''M'')]) =
     max_confidence [(''aapt'', aapt_method ''L'' [] ''1''),
                      (''aapt_resources'', app_name_method ''R''),
                      (''manifest'', app_name_method ''M'')] \<and>
   determine_best [(''aapt'', aapt_method ''L'' [] ''1''),
                   (''aapt_resources'', app_name_method ''R''),
                   (''manifest'', app_name_method ''M'')] =
     \<lparr>final_name = ''R'', final_version = [], final_package = [], final_confidence = 2\<rparr>"
  using arbiter_earliest_maximum [of "[(''aapt'', aapt_method ''L'' [] ''1''),
                      (''aapt_resources'', app_name_method ''R''),
                      (''manifest'', app_name_method ''M'')]"]
  by (simp add: determine_best_def aapt_method_def app_name_method_def fields_of_def
        label_of_def get_default_def)

text \<open>
  The claim as first stated fails: a candidate with an empty label is the final answer
  although not every candidate has confidence 0. The badging dump gave a package id and
  no label (confidence 1), and the two other methods found nothing.
\<close>

theorem arbiter_empty_label_counterexample:
  "label_of (aapt_method [] ''com.x'' ''1'') = [] \<and>
   confidence_of (aapt_method [] ''com.x'' ''1'') = 1 \<and>
   determine_best [(''aapt'', aapt_method [] ''com.x'' ''1''),
                   (''aapt_resources'', app_name_method []),
                   (''manifest'', app_name_method [])] =
     \<lparr>final_name = [], final_version = ''1'', final_package = ''com.x'', final_confidence = 1\<rparr>"
  by (simp add: determine_best_def aapt_method_def app_name_method_def fields_of_def
        label_of_def get_default_def confidence_of_def)

section \<open>Icon selection: square assets and assets without dimensions\<close>

lemma icon_step_inv: "icon_inv st \<Longrightarrow> icon_inv (icon_step st x)"
  by (cases st)
     (auto simp: icon_inv_def icon_step_def is_square_def score_def dims_of_def
           split: option.splits prod.splits)

lemma icon_foldl_inv: "icon_inv st \<Longrightarrow> icon_inv (foldl icon_step st xs)"
  by (induction xs arbitrary: st) (auto simp: icon_step_inv)

lemma icon_loop_inv: "icon_inv (icon_loop xs)"
  unfolding icon_loop_def by (rule icon_foldl_inv) (simp add: icon_inv_def)

lemma icon_step_replaces:
  "fst (icon_step st x) \<noteq> fst st \<Longrightarrow>
   icon_step st x = (Some x, score x) \<and> (is_square x \<or> dims_of x = None) \<and> score x > snd st"
  by (cases st)
     (auto simp: icon_step_def is_square_def score_def dims_of_def
           split: option.splits prod.splits if_splits)

lemma icon_step_takes:
  "is_square x \<or> dims_of x = None \<Longrightarrow> snd st < score x \<Longrightarrow>
   icon_step st x = (Some x, score x)"
  by (cases st)
     (auto simp: icon_step_def is_square_def score_def dims_of_def
           split: option.splits prod.splits)

text \<open>
  Claim C4, as amended. The selected asset is square (parsed width equals parsed height)
  or has no parseable dimensions: an asset whose parsed width and height differ is never
  selected, whatever the candidates are, but an asset without parseable dimensions can be
  selected although a square asset is among the candidates. The value the loop keeps is
  the score of the current best: its resolution, or its byte size when no dimensions are
  parseable from its name. A newly considered asset replaces the current best only if it
  is square or has no parseable dimensions and its own score is strictly greater than the
  score kept, and it does replace it then; resolutions and byte sizes are compared with
  each other on that one scale.
\<close>

theorem icon_selector_square_or_dimensionless:
  "(select_icon infolist = Some a \<longrightarrow> is_square a \<or> dims_of a = None) \<and>
   snd (icon_loop pre) = (case fst (icon_loop pre) of None \<Rightarrow> 0 | Some b \<Rightarrow> score b) \<and>
   (fst (icon_loop (pre @ [x])) \<noteq> fst (icon_loop pre) \<longrightarrow>
      fst (icon_loop (pre @ [x])) = Some x \<and> (is_square x \<or> dims_of x = None) \<and>
      snd (icon_loop pre) < score x) \<and>
   ((is_square x \<or> dims_of x = None) \<and> snd (icon_loop pre) < score x \<longrightarrow>
      icon_loop (pre @ [x]) = (Some x, score x) \<and>
      fst (icon_loop (pre @ [x])) \<noteq> fst (icon_loop pre))"
proof (intro conjI impI)
  assume "select_icon infolist = Some a"
  then show "is_square a \<or> dims_of a = None"
    using icon_loop_inv [of "filter is_icon_entry infolist"]
    by (simp add: select_icon_def icon_inv_def)
next
  show "snd (icon_loop pre) = (case fst (icon_loop pre) of None \<Rightarrow> 0 | Some b \<Rightarrow> score b)"
    using icon_loop_inv [of pre] by (simp add: icon_inv_def split: option.splits)
next
  have step: "icon_loop (pre @ [x]) = icon_step (icon_loop pre) x"
    by (simp add: icon_loop_def)
  assume ch: "fst (icon_loop (pre @ [x])) \<noteq> fst (icon_loop pre)"
  from icon_step_replaces [of "icon_loop pre" x] ch step
  show "fst (icon_loop (pre @ [x])) = Some x" "is_square x \<or> dims_of x = None"
    "snd (icon_loop pre) < score x"
    by simp_all
next
  have step: "icon_loop (pre @ [x]) = icon_step (icon_loop pre) x"
    by (simp add: icon_loop_def)
  assume el: "(is_square x \<or> dims_of x = None) \<and> snd (icon_loop pre) < score x"
  then show taken: "icon_loop (pre @ [x]) = (Some x, score x)"
    unfolding step by (intro icon_step_takes) simp_all
  show "fst (icon_loop (pre @ [x])) \<noteq> fst (icon_loop pre)"
  proof
    assume "fst (icon_loop (pre @ [x])) = fst (icon_loop pre)"
    then have "fst (icon_loop pre) = Some x" using taken by simp
    then have "snd (icon_loop pre) = score x"
      using icon_loop_inv [of pre] by (simp add: icon_inv_def)
    with el show False by simp
  qed
qed

lemma icon_name_dims:
  "search_dims (lower ''AppIcon60X60.png'') = Some (60, 60)"
  "search_dims (lower ''Icon200x100.png'') = Some (200, 100)"
  "search_dims (lower ''Icon120x120.png'') = Some (120, 120)"
  "search_dims (lower ''AppIcon60x60.png'') = Some (60, 60)"
  "search_dims (lower ''Icon.png'') = None"
  by code_simp+

lemma icon_name_entries:
  "endswith ''AppIcon60X60.png'' ''.png''" "is_in ''icon'' (lower ''AppIcon60X60.png'')"
  "endswith ''Icon200x100.png'' ''.png''" "is_in ''icon'' (lower ''Icon200x100.png'')"
  "endswith ''Icon120x120.png'' ''.png''" "is_in ''icon'' (lower ''Icon120x120.png'')"
  "endswith ''AppIcon60x60.png'' ''.png''" "is_in ''icon'' (lower ''AppIcon60x60.png'')"
  "endswith ''Icon.png'' ''.png''" "is_in ''icon'' (lower ''Icon.png'')"
  "\<not> endswith ''readme.txt'' ''.png''"
  by code_simp+

lemma icon_selector_example:
  "select_icon [\<lparr>filename = ''AppIcon60X60.png'', file_size = 500\<rparr>,
                \<lparr>filename = ''Icon200x100.png'', file_size = 9000\<rparr>,
                \<lparr>filename = ''readme.txt'', file_size = 9000\<rparr>,
                \<lparr>filename = ''Icon120x120.png'', file_size = 7\<rparr>]
     = Some \<lparr>filename = ''Icon120x120.png'', file_size = 7\<rparr> \<and>
   is_square \<lparr>filename = ''AppIcon60X60.png'', file_size = 500\<rparr> \<and>
   is_square \<lparr>filename = ''Icon120x120.png'', file_size = 7\<rparr> \<and>
   dims_of \<lparr>filename = ''Icon200x100.png'', file_size = 9000\<rparr> = Some (200, 100) \<and>
   fst (icon_loop [\<lparr>filename = ''AppIcon60X60.png'', file_size = 500\<rparr>])
     = Some \<lparr>filename = ''AppIcon60X60.png'', file_size = 500\<rparr> \<and>
   score \<lparr>filename = ''AppIcon60X60.png'', file_size = 500\<rparr> = 3600"
  by (simp add: select_icon_def is_icon_entry_def icon_loop_def icon_step_def dims_of_def
        is_square_def score_def icon_name_dims icon_name_entries)

theorem icon_selector_square_or_dimensionless_witness:
  "select_icon [\<lparr>filename = ''AppIcon60X60.png'', file_size = 500\<rparr>,
                \<lparr>filename = ''Icon200x100.png'', file_size = 9000\<rparr>,
                \<lparr>filename = ''readme.txt'', file_size = 9000\<rparr>,
                \<lparr>filename = ''Icon120x120.png'', file_size = 7\<rparr>]
     = Some \<lparr>filename = ''Icon120x120.png'', file_size = 7\<rparr> \<and>
   is_square \<lparr>filename = ''Icon120x120.png'', file_size = 7\<rparr> \<and>
   dims_of \<lparr>filename = ''Icon200x100.png'', file_size = 9000\<rparr> = Some (200, 100) \<and>
   fst (icon_loop ([] @ [\<lparr>filename = ''AppIcon60X60.png'', file_size = 500\<rparr>])) \<noteq> fst (icon_loop []) \<and>
   is_square \<lparr>filename = ''AppIcon60X60.png'', file_size = 500\<rparr> \<and>
   snd (icon_loop []) < score \<lparr>filename = ''AppIcon60X60.png'', file_size = 500\<rparr>"
proof -
  let ?i60 = "\<lparr>filename = ''AppIcon60X60.png'', file_size = 500\<rparr>"
  let ?i120 = "\<lparr>filename = ''Icon120x120.png'', file_size = 7\<rparr>"
  let ?wide = "\<lparr>filename = ''Icon200x100.png'', file_size = 9000\<rparr>"
  let ?all = "[?i60, ?wide, \<lparr>filename = ''readme.txt'', file_size = 9000\<rparr>, ?i120]"
  note t = icon_selector_square_or_dimensionless [of ?all ?i120 "[]" ?i60]
  note e = icon_selector_example
  have sel: "select_icon ?all = Some ?i120"
    by (rule e [THEN conjunct1])
  have sq: "is_square ?i60"
    by (rule e [THEN conjunct2, THEN conjunct1])
  have sq120: "is_square ?i120"
    by (rule e [THEN conjunct2, THEN conjunct2, THEN conjunct1])
  have wide: "dims_of ?wide = Some (200, 100)"
    by (rule e [THEN conjunct2, THEN conjunct2, THEN conjunct2, THEN conjunct1])
  have sc: "score ?i60 = 3600"
    by (rule e [THEN conjunct2, THEN conjunct2, THEN conjunct2, THEN conjunct2, THEN conjunct2])
  have below: "snd (icon_loop []) < score ?i60"
    unfolding sc by (simp add: icon_loop_def)
  have sel_ok: "is_square ?i120 \<or> dims_of ?i120 = None"
    by (rule t [THEN conjunct1, THEN mp, OF sel])
  have takes: "fst (icon_loop ([] @ [?i60])) \<noteq> fst (icon_loop [])"
    by (rule t [THEN conjunct2, THEN conjunct2, THEN conjunct2, THEN mp, THEN conjunct2,
                OF conjI [OF disjI1 [OF sq] below]])
  show ?thesis
    by (intro conjI sel sq120 wide takes sq below)
qed

text \<open>
  The claim as first stated fails. The candidates are a square asset of 60 by 60 pixels
  (50000 bytes) and, after it, an asset without parseable dimensions (9000 bytes). The
  second one is selected: it is not a square asset although a square asset is present,
  and it replaces a best whose byte size is greater, since its 9000 bytes are compared
  with the 3600 pixels of the square asset.
\<close>

theorem icon_selector_dimensionless_counterexample:
  "is_square \<lparr>filename = ''AppIcon60x60.png'', file_size = 50000\<rparr> \<and>
   \<not> is_square \<lparr>filename = ''Icon.png'', file_size = 9000\<rparr> \<and>
   dims_of \<lparr>filename = ''Icon.png'', file_size = 9000\<rparr> = None \<and>
   fst (icon_loop [\<lparr>filename = ''AppIcon60x60.png'', file_size = 50000\<rparr>])
     = Some \<lparr>filename = ''AppIcon60x60.png'', file_size = 50000\<rparr> \<and>
   select_icon [\<lparr>filename = ''AppIcon60x60.png'', file_size = 50000\<rparr>,
                \<lparr>filename = ''Icon.png'', file_size = 9000\<rparr>]
     = Some \<lparr>filename = ''Icon.png'', file_size = 9000\<rparr> \<and>
   file_size \<lparr>filename = ''Icon.png'', file_size = 9000\<rparr>
     < file_size \<lparr>filename = ''AppIcon60x60.png'', file_size = 50000\<rparr>"
  by (simp add: select_icon_def is_icon_entry_def icon_loop_def icon_step_def dims_of_def
        is_square_def score_def icon_name_dims icon_name_entries)

section \<open>Name, version and package id of an Apple bundle\<close>

lemma or_else_field: "or_else (p k) rest = (if bundle_field p k \<noteq> [] then bundle_field p k else rest)"
  by (simp add: or_else_def bundle_field_def get_default_def split: option.splits)

lemma truthy_field: "truthy (p k) = (bundle_field p k \<noteq> [])"
  by (simp add: truthy_def bundle_field_def get_default_def split: option.splits)

lemma apple_name_fields:
  "(bundle_field p ''CFBundleDisplayName'' \<noteq> [] \<longrightarrow>
      name (ipa_fields p) = bundle_field p ''CFBundleDisplayName'' \<and>
      confidence (ipa_fields p) = 4 \<and>
      comprehensive_name p = (bundle_field p ''CFBundleDisplayName'', 4) \<and>
      fst (p_fixed_fields p) = bundle_field p ''CFBundleDisplayName'') \<and>
   (bundle_field p ''CFBundleDisplayName'' = [] \<and> bundle_field p ''CFBundleName'' \<noteq> [] \<longrightarrow>
      name (ipa_fields p) = bundle_field p ''CFBundleName'' \<and>
      confidence (ipa_fields p) = 3 \<and>
      comprehensive_name p = (bundle_field p ''CFBundleName'', 3) \<and>
      fst (p_fixed_fields p) = bundle_field p ''CFBundleName'') \<and>
   (bundle_field p ''CFBundleDisplayName'' = [] \<and> bundle_field p ''CFBundleName'' = [] \<and>
    bundle_field p ''CFBundleExecutable'' \<noteq> [] \<longrightarrow>
      name (ipa_fields p) = bundle_field p ''CFBundleExecutable'' \<and>
      confidence (ipa_fields p) = 2 \<and>
      comprehensive_name p = (bundle_field p ''CFBundleExecutable'', 2) \<and>
      fst (p_fixed_fields p) = bundle_field p ''CFBundleExecutable'') \<and>
   (bundle_field p ''CFBundleDisplayName'' = [] \<and> bundle_field p ''CFBundleName'' = [] \<and>
    bundle_field p ''CFBundleExecutable'' = [] \<and>
    bundle_field p ''CFBundleDisplayNameLocalized'' \<noteq> [] \<longrightarrow>
      comprehensive_name p = (bundle_field p ''CFBundleDisplayNameLocalized'', 3) \<and>
      fst (p_fixed_fields p) = bundle_field p ''CFBundleDisplayNameLocalized'') \<and>
   version (ipa_fields p) =
     (if bundle_field p ''CFBundleShortVersionString'' \<noteq> []
      then bundle_field p ''CFBundleShortVersionString'' else bundle_field p ''CFBundleVersion'') \<and>
   final_version (comprehensive_fields p) = version (ipa_fields p) \<and>
   fst (snd (p_fixed_fields p)) = version (ipa_fields p) \<and>
   package (ipa_fields p) = bundle_field p ''CFBundleIdentifier'' \<and>
   final_package (comprehensive_fields p) = bundle_field p ''CFBundleIdentifier'' \<and>
   snd (snd (p_fixed_fields p)) = bundle_field p ''CFBundleIdentifier''"
  unfolding ipa_fields_def comprehensive_name_def comprehensive_fields_def p_fixed_fields_def
    or_else_field truthy_field bundle_field_def [symmetric]
  by simp

text \<open>
  Claim C5, as amended. The resolved name is the first non-empty field in the order
  display name, bundle name, executable name, with confidences 4, 3 and 2, in all three
  extractors. The localized display name is consulted last, after the executable name,
  by analyze\_ipa\_comprehensive (confidence 3) and by p\_fixed.py. It is never consulted
  by extract\_ipa\_metadata: the result of that extractor does not depend on the key, and
  its name is empty when the display name, the bundle name and the executable name are
  all empty. The version is the short version string, else the build version; the
  package id is the bundle identifier.
\<close>

theorem apple_name_resolution:
  "(bundle_field p ''CFBundleDisplayName'' \<noteq> [] \<longrightarrow>
      name (ipa_fields p) = bundle_field p ''CFBundleDisplayName'' \<and>
      confidence (ipa_fields p) = 4 \<and>
      comprehensive_name p = (bundle_field p ''CFBundleDisplayName'', 4) \<and>
      fst (p_fixed_fields p) = bundle_field p ''CFBundleDisplayName'') \<and>
   (bundle_field p ''CFBundleDisplayName'' = [] \<and> bundle_field p ''CFBundleName'' \<noteq> [] \<longrightarrow>
      name (ipa_fields p) = bundle_field p ''CFBundleName'' \<and>
      confidence (ipa_fields p) = 3 \<and>
      comprehensive_name p = (bundle_field p ''CFBundleName'', 3) \<and>
      fst (p_fixed_fields p) = bundle_field p ''CFBundleName'') \<and>
   (bundle_field p ''CFBundleDisplayName'' = [] \<and> bundle_field p ''CFBundleName'' = [] \<and>
    bundle_field p ''CFBundleExecutable'' \<noteq> [] \<longrightarrow>
      name (ipa_fields p) = bundle_field p ''CFBundleExecutable'' \<and>
      confidence (ipa_fields p) = 2 \<and>
      comprehensive_name p = (bundle_field p ''CFBundleExecutable'', 2) \<and>
      fst (p_fixed_fields p) = bundle_field p ''CFBundleExecutable'') \<and>
   (bundle_field p ''CFBundleDisplayName'' = [] \<and> bundle_field p ''CFBundleName'' = [] \<and>
    bundle_field p ''CFBundleExecutable'' = [] \<and>
    bundle_field p ''CFBundleDisplayNameLocalized'' \<noteq> [] \<longrightarrow>
      comprehensive_name p = (bundle_field p ''CFBundleDisplayNameLocalized'', 3) \<and>
      fst (p_fixed_fields p) = bundle_field p ''CFBundleDisplayNameLocalized'') \<and>
   (bundle_field p ''CFBundleDisplayName'' = [] \<and> bundle_field p ''CFBundleName'' = [] \<and>
    bundle_field p ''CFBundleExecutable'' = [] \<longrightarrow>
      name (ipa_fields p) = []) \<and>
   ipa_fields (p(''CFBundleDisplayNameLocalized'' := v)) = ipa_fields p \<and>
   version (ipa_fields p) =
     (if bundle_field p ''CFBundleShortVersionString'' \<noteq> []
      then bundle_field p ''CFBundleShortVersionString'' else bundle_field p ''CFBundleVersion'') \<and>
   final_version (comprehensive_fields p) = version (ipa_fields p) \<and>
   fst (snd (p_fixed_fields p)) = version (ipa_fields p) \<and>
   package (ipa_fields p) = bundle_field p ''CFBundleIdentifier'' \<and>
   final_package (comprehensive_fields p) = bundle_field p ''CFBundleIdentifier'' \<and>
   snd (snd (p_fixed_fields p)) = bundle_field p ''CFBundleIdentifier''"
proof -
  have empty: "bundle_field p ''CFBundleDisplayName'' = [] \<and>
      bundle_field p ''CFBundleName'' = [] \<and> bundle_field p ''CFBundleExecutable'' = [] \<longrightarrow>
      name (ipa_fields p) = []"
    by (simp add: ipa_fields_def or_else_field)
  have ignored: "ipa_fields (p(''CFBundleDisplayNameLocalized'' := v)) = ipa_fields p"
    by (simp add: ipa_fields_def)
  from apple_name_fields [of p] empty ignored show ?thesis
    by simp
qed

theorem apple_name_resolution_witness:
  "bundle_field [''CFBundleName'' \<mapsto> ''Widgets'', ''CFBundleVersion'' \<mapsto> ''7''] ''CFBundleDisplayName'' = [] \<and>
   bundle_field [''CFBundleName'' \<mapsto> ''Widgets'', ''CFBundleVersion'' \<mapsto> ''7''] ''CFBundleName'' \<noteq> [] \<and>
   name (ipa_fields [''CFBundleName'' \<mapsto> ''Widgets'', ''CFBundleVersion'' \<mapsto> ''7'']) = ''Widgets'' \<and>
   confidence (ipa_fields [''CFBundleName'' \<mapsto> ''Widgets'', ''CFBundleVersion'' \<mapsto> ''7'']) = 3 \<and>
   version (ipa_fields [''CFBundleName'' \<mapsto> ''Widgets'', ''CFBundleVersion'' \<mapsto> ''7'']) = ''7'' \<and>
   ipa_fields [''CFBundleName'' \<mapsto> ''Widgets'', ''CFBundleVersion'' \<mapsto> ''7'',
               ''CFBundleDisplayNameLocalized'' \<mapsto> ''Gadgets'']
     = ipa_fields [''CFBundleName'' \<mapsto> ''Widgets'', ''CFBundleVersion'' \<mapsto> ''7'']"
  using apple_name_resolution [of "[''CFBundleName'' \<mapsto> ''Widgets'', ''CFBundleVersion'' \<mapsto> ''7'']"
          "Some ''Gadgets''"]
  by (simp add: bundle_field_def get_default_def)

text \<open>
  The claim as first stated fails: with no display name, a localized display name and a
  bundle name, the stated order resolves the localized name, while every extractor resolves
  the bundle name.
\<close>

theorem apple_name_priority_counterexample:
  "spec_name_priority [''CFBundleDisplayNameLocalized'' \<mapsto> ''L'', ''CFBundleName'' \<mapsto> ''N''] = (''L'', 3) \<and>
   name (ipa_fields [''CFBundleDisplayNameLocalized'' \<mapsto> ''L'', ''CFBundleName'' \<mapsto> ''N'']) = ''N'' \<and>
   comprehensive_name [''CFBundleDisplayNameLocalized'' \<mapsto> ''L'', ''CFBundleName'' \<mapsto> ''N''] = (''N'', 3) \<and>
   fst (p_fixed_fields [''CFBundleDisplayNameLocalized'' \<mapsto> ''L'', ''CFBundleName'' \<mapsto> ''N'']) = ''N''"
  by (simp add: spec_name_priority_def bundle_field_def get_default_def ipa_fields_def
        comprehensive_name_def p_fixed_fields_def or_else_def)

section \<open>One file through the pipeline: the two scenarios\<close>

lemma badging_lines_other:
  "list_all other_line ls \<Longrightarrow> badging_lines (ls @ rest) st = badging_lines rest st"
proof (induction ls arbitrary: st)
  case Nil
  show ?case by simp
next
  case (Cons l ls)
  obtain a b c where st: "st = (a, b, c)" by (cases st)
  from Cons show ?case by (simp add: st other_line_def)
qed

lemma badging_package_line:
  "badging_lines (package_line # rest) (l, p, v) = badging_lines rest (l, ''com.example.app'', ''2.3'')"
  by (simp add: package_line_def quote_def split_ws_def is_space_def startswith_def item_def
        strip_chars_def)

lemma badging_label_line:
  "badging_lines (label_line # rest) (l, p, v) = badging_lines rest (''Example'', p, v)"
  by (simp add: label_line_def quote_def startswith_def item_def split_once_def strip_chars_def)

lemma badging_scenario_lines:
  assumes "list_all other_line (pre @ mid @ post)"
  shows "badging_lines (pre @ [package_line] @ mid @ [label_line] @ post) ([], [], [])
           = Some (''Example'', ''com.example.app'', ''2.3'')"
proof -
  from assms have o: "list_all other_line pre" "list_all other_line mid" "list_all other_line post"
    by simp_all
  have "badging_lines (pre @ [package_line] @ mid @ [label_line] @ post) ([], [], [])
          = badging_lines (package_line # mid @ [label_line] @ post) ([], [], [])"
    using badging_lines_other [OF o(1), of "package_line # mid @ [label_line] @ post"]
    by (simp del: badging_lines.simps)
  also have "\<dots> = badging_lines (mid @ label_line # post) ([], ''com.example.app'', ''2.3'')"
    by (simp del: badging_lines.simps add: badging_package_line)
  also have "\<dots> = badging_lines (label_line # post) ([], ''com.example.app'', ''2.3'')"
    by (rule badging_lines_other [OF o(2)])
  also have "\<dots> = badging_lines (post @ []) (''Example'', ''com.example.app'', ''2.3'')"
    by (simp del: badging_lines.simps add: badging_label_line)
  also have "\<dots> = Some (''Example'', ''com.example.app'', ''2.3'')"
    using badging_lines_other [OF o(3), of "[]"] by simp
  finally show ?thesis .
qed

lemma rename_first_attempt:
  assumes "\<not> fails (file_path r) 0" "file_path r |\<in>| names"
  shows "rename_attempts fails new [0..<max_retries] (names, r)
           = (finsert new (names |-| {|file_path r|}), r\<lparr>file_path := new\<rparr>)"
proof -
  have "[0..<max_retries] = 0 # [1..<max_retries]"
    by (simp add: max_retries_def upt_conv_Cons)
  with assms show ?thesis
    by (simp add: os_rename_def)
qed

lemma rename_one_free:
  assumes v: "status r = ''valid''" "1 \<le> confidence r"
    and free: "target_base title r @ extension_of r |\<notin>| existing_files st"
    and ok: "\<not> fails (file_path r) 0" "file_path r |\<in>| disk st"
  shows "rename_one title fails st r =
           \<lparr>existing_files = finsert (target_base title r @ extension_of r) (existing_files st),
            disk = finsert (target_base title r @ extension_of r) (disk st |-| {|file_path r|}),
            rename_results = rename_results st @ [r\<lparr>file_path := target_base title r @ extension_of r\<rparr>]\<rparr>"
proof -
  let ?new = "target_base title r @ extension_of r"
  have g: "get_unique_filename (target_base title r) (extension_of r) (existing_files st) = ?new"
    using free by (simp add: get_unique_filename_def unique_loop_free)
  show ?thesis
  proof (cases "file_path r = ?new")
    case True
    then have "finsert ?new (disk st |-| {|file_path r|}) = disk st"
      using ok(2) by auto
    moreover have "r\<lparr>file_path := ?new\<rparr> = r"
      using True by simp
    ultimately show ?thesis
      using v g True by (simp add: rename_one_def Let_def)
  next
    case False
    then show ?thesis
      using v g ok rename_first_attempt [of fails r "disk st" ?new]
      by (simp add: rename_one_def Let_def)
  qed
qed

lemma endswith_apk_not_ipa: "endswith s ''.apk'' \<Longrightarrow> \<not> endswith s ''.ipa''"
  by (auto simp: endswith_def)

lemma sanitize_Example: "sanitize_filename ''Example'' = ''Example''"
  by (simp add: sanitize_filename_def replace_invalid_def invalid_chars_def replace_char_def
        collapse_underscores_def strip_def is_space_def)

lemma sanitize_Widgets: "sanitize_filename ''Widgets'' = ''Widgets''"
  by (simp add: sanitize_filename_def replace_invalid_def invalid_chars_def replace_char_def
        collapse_underscores_def strip_def is_space_def)

text \<open>
  Claim C6. An Android file whose badging dump contains the line
  \<open>package: name='com.example.app' versionName='2.3'\<close> and, later, the line
  \<open>application-label:'Example'\<close> (no other line starting with \<open>package:\<close> or
  \<open>application-label:\<close>) is resolved to the label \<open>Example\<close>, the version \<open>2.3\<close>, the
  package id \<open>com.example.app\<close> and the confidence 3. When the name
  \<open>Example v2.3.apk\<close> is not in the registry and the first rename attempt is not
  refused, the renaming step renames the file to \<open>Example v2.3.apk\<close>.
\<close>

theorem android_example_scenario:
  assumes apk: "endswith path ''.apk''"
    and sz: "getsize w path = Some sz"
    and out: "badging w path = Some text"
    and lines: "splitlines text = pre @ [package_line] @ mid @ [label_line] @ post"
    and others: "list_all other_line (pre @ mid @ post)"
    and free: "''Example v2.3.apk'' |\<notin>| existing_files st"
    and ok: "\<not> fails path 0" "path |\<in>| disk st"
  shows "\<exists>r. process_file w path = Some r \<and>
           name r = ''Example'' \<and> version r = ''2.3'' \<and> package r = ''com.example.app'' \<and>
           confidence r = 3 \<and> status r = ''valid'' \<and>
           rename_results (rename_one title fails st r)
             = rename_results st @ [r\<lparr>file_path := ''Example v2.3.apk''\<rparr>] \<and>
           disk (rename_one title fails st r)
             = finsert ''Example v2.3.apk'' (disk st |-| {|path|})"
proof -
  let ?r = "\<lparr>name = ''Example'', version = ''2.3'', package = ''com.example.app'',
             confidence = 3, file_path = path, size_bytes = sz, status = ''valid''\<rparr>"
  have md: "extract_apk_metadata (Some text) =
              Some \<lparr>name = ''Example'', version = ''2.3'', package = ''com.example.app'',
                    confidence = 3\<rparr>"
    using badging_scenario_lines [OF others] lines
    by (simp add: extract_apk_metadata_def)
  have p: "process_file w path = Some ?r"
    using apk sz out md by (simp add: process_file_def result_of_def)
  have base: "target_base title ?r = ''Example v2.3''"
    by (simp add: target_base_def resolve_app_name_def sanitize_Example strip_def is_space_def)
  have ext: "extension_of ?r = ''.apk''"
    using apk by (simp add: extension_of_def)
  have "rename_one title fails st ?r =
          \<lparr>existing_files = finsert ''Example v2.3.apk'' (existing_files st),
           disk = finsert ''Example v2.3.apk'' (disk st |-| {|path|}),
           rename_results = rename_results st @ [?r\<lparr>file_path := ''Example v2.3.apk''\<rparr>]\<rparr>"
    using rename_one_free [of ?r title st fails] free ok base ext by simp
  with p show ?thesis by simp
qed


lemma scenario_badging_lines: "splitlines scenario_badging = [] @ [package_line] @ [] @ [label_line] @ []"
  by (simp add: scenario_badging_def splitlines_def package_line_def label_line_def quote_def
        is_linebreak_def)

theorem android_example_scenario_witness:
  "endswith ''app.apk'' ''.apk'' \<and>
   badging android_world ''app.apk'' = Some scenario_badging \<and>
   splitlines scenario_badging = [package_line, label_line] \<and>
   ''Example v2.3.apk'' |\<notin>| existing_files (initial_batch [''app.apk'']) \<and>
   ''app.apk'' |\<in>| disk (initial_batch [''app.apk'']) \<and>
   map file_path (rename_results (main_batch (\<lambda>s. s) android_world never_fails
                                    [''app.apk''] [''app.apk''])) = [''Example v2.3.apk''] \<and>
   disk (main_batch (\<lambda>s. s) android_world never_fails [''app.apk''] [''app.apk''])
     = {|''Example v2.3.apk''|}"
proof -
  have h1: "endswith ''app.apk'' ''.apk''"
    by (simp add: endswith_def)
  have h2: "getsize android_world ''app.apk'' = Some 4096"
    and h3: "badging android_world ''app.apk'' = Some scenario_badging"
    by (simp_all add: android_world_def)
  have h5: "list_all other_line ([] @ [] @ [])"
    by simp
  have h6: "''Example v2.3.apk'' |\<notin>| existing_files (initial_batch [''app.apk''])"
    by (simp add: initial_batch_def files_to_process_def)
  have h7: "\<not> never_fails ''app.apk'' 0"
    by (simp add: never_fails_def)
  have h8: "''app.apk'' |\<in>| disk (initial_batch [''app.apk''])"
    by (simp add: initial_batch_def)
  from android_example_scenario [where fails = never_fails and title = "\<lambda>s. s",
      OF h1 h2 h3 scenario_badging_lines h5 h6 h7 h8]
  obtain r where r: "process_file android_world ''app.apk'' = Some r"
    "rename_results (rename_one (\<lambda>s. s) never_fails (initial_batch [''app.apk'']) r)
       = rename_results (initial_batch [''app.apk'']) @ [r\<lparr>file_path := ''Example v2.3.apk''\<rparr>]"
    "disk (rename_one (\<lambda>s. s) never_fails (initial_batch [''app.apk'']) r)
       = finsert ''Example v2.3.apk'' (disk (initial_batch [''app.apk'']) |-| {|''app.apk''|})"
    by blast
  have m: "main_batch (\<lambda>s. s) android_world never_fails [''app.apk''] [''app.apk'']
             = rename_one (\<lambda>s. s) never_fails (initial_batch [''app.apk'']) r"
    using r(1) by (simp add: main_batch_def phase1_def List.map_filter_def)
  show ?thesis
    using h1 h3 h6 h8 scenario_badging_lines r(2,3)
    unfolding m by (simp add: initial_batch_def)
qed

lemma endswith_ipa_not_apk: "endswith s ''.ipa'' \<Longrightarrow> \<not> endswith s ''.apk''"
  by (auto simp: endswith_def)

lemma choose_main_info_single: "choose_main_info [entry] = Some entry"
  by (simp add: choose_main_info_def item_def)

text \<open>
  Claim C9. An Apple file whose only metadata bundle has an empty (or absent)
  \<open>CFBundleDisplayName\<close>, \<open>CFBundleName = "Widgets"\<close> and no version keys is resolved
  to the name \<open>Widgets\<close> and the empty version. When the name \<open>Widgets v1.0.ipa\<close> is not
  in the registry and the first rename attempt is not refused, the renaming step renames
  the file to \<open>Widgets v1.0.ipa\<close>: the version suffix defaults to \<open>v1.0\<close>.
\<close>

theorem apple_widgets_scenario:
  assumes ipa: "endswith path ''.ipa''"
    and sz: "getsize w path = Some sz"
    and arch: "open_archive w path = Some z"
    and only: "filter (\<lambda>f. endswith f ''Info.plist'') (namelist z) = [entry]"
    and load: "load_plist z entry = Some info_plist"
    and dn: "bundle_field info_plist ''CFBundleDisplayName'' = []"
    and bn: "info_plist ''CFBundleName'' = Some ''Widgets''"
    and nover: "info_plist ''CFBundleShortVersionString'' = None"
               "info_plist ''CFBundleVersion'' = None"
    and free: "''Widgets v1.0.ipa'' |\<notin>| existing_files st"
    and ok: "\<not> fails path 0" "path |\<in>| disk st"
  shows "\<exists>r. process_file w path = Some r \<and>
           name r = ''Widgets'' \<and> version r = [] \<and> confidence r = 3 \<and>
           status r = ''valid'' \<and>
           rename_results (rename_one title fails st r)
             = rename_results st @ [r\<lparr>file_path := ''Widgets v1.0.ipa''\<rparr>] \<and>
           disk (rename_one title fails st r)
             = finsert ''Widgets v1.0.ipa'' (disk st |-| {|path|})"
proof -
  let ?r = "\<lparr>name = ''Widgets'', version = [],
             package = bundle_field info_plist ''CFBundleIdentifier'',
             confidence = 3, file_path = path, size_bytes = sz, status = ''valid''\<rparr>"
  have f: "ipa_fields info_plist =
             \<lparr>name = ''Widgets'', version = [],
              package = bundle_field info_plist ''CFBundleIdentifier'', confidence = 3\<rparr>"
    using dn bn nover
    by (simp add: ipa_fields_def or_else_def truthy_def bundle_field_def get_default_def
          split: option.splits)
  have md: "extract_ipa_metadata (Some z) = Some (ipa_fields info_plist)"
    using only load by (simp add: extract_ipa_metadata_def choose_main_info_single)
  have p: "process_file w path = Some ?r"
    using ipa endswith_ipa_not_apk [OF ipa] sz arch md f
    by (simp add: process_file_def result_of_def)
  have base: "target_base title ?r = ''Widgets v1.0''"
    by (simp add: target_base_def resolve_app_name_def sanitize_Widgets strip_def is_space_def)
  have ext: "extension_of ?r = ''.ipa''"
    using endswith_ipa_not_apk [OF ipa] by (simp add: extension_of_def)
  have "rename_one title fails st ?r =
          \<lparr>existing_files = finsert ''Widgets v1.0.ipa'' (existing_files st),
           disk = finsert ''Widgets v1.0.ipa'' (disk st |-| {|path|}),
           rename_results = rename_results st @ [?r\<lparr>file_path := ''Widgets v1.0.ipa''\<rparr>]\<rparr>"
    using rename_one_free [of ?r title st fails] free ok base ext by simp
  with p show ?thesis by simp
qed

theorem apple_widgets_scenario_witness:
  "endswith ''w.ipa'' ''.ipa'' \<and>
   open_archive apple_world ''w.ipa'' = Some widgets_archive \<and>
   filter (\<lambda>f. endswith f ''Info.plist'') (namelist widgets_archive)
     = [''Payload/Widgets.app/Info.plist''] \<and>
   bundle_field widgets_plist ''CFBundleDisplayName'' = [] \<and>
   widgets_plist ''CFBundleName'' = Some ''Widgets'' \<and>
   widgets_plist ''CFBundleShortVersionString'' = None \<and>
   widgets_plist ''CFBundleVersion'' = None \<and>
   ''Widgets v1.0.ipa'' |\<notin>| existing_files (initial_batch [''w.ipa'']) \<and>
   map file_path (rename_results (main_batch (\<lambda>s. s) apple_world never_fails
                                    [''w.ipa''] [''w.ipa''])) = [''Widgets v1.0.ipa''] \<and>
   disk (main_batch (\<lambda>s. s) apple_world never_fails [''w.ipa''] [''w.ipa''])
     = {|''Widgets v1.0.ipa''|}"
proof -
  have h1: "endswith ''w.ipa'' ''.ipa''"
    by (simp add: endswith_def)
  have h2: "getsize apple_world ''w.ipa'' = Some 4096"
    and h3: "open_archive apple_world ''w.ipa'' = Some widgets_archive"
    by (simp_all add: apple_world_def)
  have h4: "filter (\<lambda>f. endswith f ''Info.plist'') (namelist widgets_archive)
              = [''Payload/Widgets.app/Info.plist'']"
    by (simp add: widgets_archive_def endswith_def)
  have h5: "load_plist widgets_archive ''Payload/Widgets.app/Info.plist'' = Some widgets_plist"
    by (simp add: widgets_archive_def)
  have h6: "bundle_field widgets_plist ''CFBundleDisplayName'' = []"
    and h7: "widgets_plist ''CFBundleName'' = Some ''Widgets''"
    and h8: "widgets_plist ''CFBundleShortVersionString'' = None"
    and h9: "widgets_plist ''CFBundleVersion'' = None"
    by (simp_all add: widgets_plist_def bundle_field_def get_default_def)
  have h10: "''Widgets v1.0.ipa'' |\<notin>| existing_files (initial_batch [''w.ipa''])"
    by (simp add: initial_batch_def files_to_process_def)
  have h11: "\<not> never_fails ''w.ipa'' 0"
    by (simp add: never_fails_def)
  have h12: "''w.ipa'' |\<in>| disk (initial_batch [''w.ipa''])"
    by (simp add: initial_batch_def)
  from apple_widgets_scenario [where fails = never_fails and title = "\<lambda>s. s",
      OF h1 h2 h3 h4 h5 h6 h7 h8 h9 h10 h11 h12]
  obtain r where r: "process_file apple_world ''w.ipa'' = Some r"
    "rename_results (rename_one (\<lambda>s. s) never_fails (initial_batch [''w.ipa'']) r)
       = rename_results (initial_batch [''w.ipa'']) @ [r\<lparr>file_path := ''Widgets v1.0.ipa''\<rparr>]"
    "disk (rename_one (\<lambda>s. s) never_fails (initial_batch [''w.ipa'']) r)
       = finsert ''Widgets v1.0.ipa'' (disk (initial_batch [''w.ipa'']) |-| {|''w.ipa''|})"
    by blast
  have m: "main_batch (\<lambda>s. s) apple_world never_fails [''w.ipa''] [''w.ipa'']
             = rename_one (\<lambda>s. s) never_fails (initial_batch [''w.ipa'']) r"
    using r(1) by (simp add: main_batch_def phase1_def List.map_filter_def)
  show ?thesis
    using h1 h3 h4 h6 h7 h8 h9 h10 r(2,3)
    unfolding m by (simp add: initial_batch_def)
qed

section \<open>The sanitizer applied twice\<close>

lemma no_double_tl: "no_double (c # z) \<Longrightarrow> no_double z"
  by (cases z) auto

lemma no_double_Cons_other: "c \<noteq> CHR ''_'' \<Longrightarrow> no_double (c # z) = no_double z"
  by (cases z) auto

lemma no_double_free_append: "CHR ''_'' \<notin> set w \<Longrightarrow> no_double z \<Longrightarrow> no_double (w @ z)"
  by (induction w) (auto simp: no_double_Cons_other)

lemma no_double_prefix: "no_double (a @ b) \<Longrightarrow> no_double a"
proof (induction a rule: no_double.induct)
  case 1
  show ?case by simp
next
  case (2 c)
  show ?case by simp
next
  case (3 c d cs)
  then show ?case by simp
qed

lemma no_double_dropWhile: "no_double x \<Longrightarrow> no_double (dropWhile P x)"
  by (induction x) (auto dest: no_double_tl)

lemma rev_dropWhile_rev_prefix: "\<exists>t. z = rev (dropWhile P (rev z)) @ t"
proof -
  have "rev z = takeWhile P (rev z) @ dropWhile P (rev z)" by simp
  then have "rev (rev z) = rev (takeWhile P (rev z) @ dropWhile P (rev z))" by simp
  then have "z = rev (dropWhile P (rev z)) @ rev (takeWhile P (rev z))"
    by (simp only: rev_rev_ident rev_append)
  then show ?thesis ..
qed

lemma no_double_strip: "no_double x \<Longrightarrow> no_double (strip x)"
proof -
  assume "no_double x"
  then have d: "no_double (dropWhile is_space x)" by (rule no_double_dropWhile)
  obtain t where "dropWhile is_space x = strip x @ t"
    unfolding strip_def using rev_dropWhile_rev_prefix [of "dropWhile is_space x" is_space] by blast
  with d show ?thesis by (metis no_double_prefix)
qed

lemma split_on_nonempty: "split_on sep s \<noteq> []"
  by (induction s) (auto split: list.splits)

lemma split_on_free: "w \<in> set (split_on sep s) \<Longrightarrow> sep \<notin> set w"
proof (induction s arbitrary: w)
  case Nil
  then show ?case by simp
next
  case (Cons c cs)
  obtain v vs where sp: "split_on sep cs = v # vs"
    using split_on_nonempty [of sep cs] by (cases "split_on sep cs") auto
  show ?case
  proof (cases "c = sep")
    case True
    with Cons show ?thesis by auto
  next
    case False
    with Cons.prems sp have "w = c # v \<or> w \<in> set vs" by simp
    then show ?thesis
      using Cons.IH [of v] Cons.IH [of w] sp False by auto
  qed
qed

lemma no_double_join:
  "\<forall>w\<in>set ws. w \<noteq> [] \<and> CHR ''_'' \<notin> set w \<Longrightarrow> no_double (join ''_'' ws)"
proof (induction "''_''" ws rule: join.induct)
  case 1
  show ?case by simp
next
  case (2 w)
  then show ?case using no_double_free_append [of w "[]"] by simp
next
  case (3 w v ws)
  then have ih: "no_double (join ''_'' (v # ws))" by simp
  from 3 have v: "v \<noteq> []" "CHR ''_'' \<notin> set v" by simp_all
  then obtain c v' where vc: "v = c # v'" "c \<noteq> CHR ''_''" by (cases v) auto
  have "\<exists>z. join ''_'' (v # ws) = c # z"
    by (cases ws) (simp_all add: vc)
  then obtain z where z: "join ''_'' (v # ws) = c # z" ..
  have "no_double (CHR ''_'' # join ''_'' (v # ws))"
    using ih vc z by simp
  then show ?case
    using 3 no_double_free_append [of w "CHR ''_'' # join ''_'' (v # ws)"] by simp
qed

lemma no_double_collapse: "no_double (collapse_underscores x)"
  unfolding collapse_underscores_def
  by (rule no_double_join) (auto dest: split_on_free)

lemma join_Cons_head: "join sep ((c # w) # rest) = c # join sep (w # rest)"
  by (cases rest) simp_all

lemma split_on_hd_sep: "split_on sep (sep # cs) = [] # split_on sep cs"
  by simp

lemma split_on_hd_other:
  "c \<noteq> sep \<Longrightarrow> \<exists>w ws. split_on sep cs = w # ws \<and> split_on sep (c # cs) = (c # w) # ws"
  using split_on_nonempty [of sep cs] by (cases "split_on sep cs") auto

lemma collapse_fix_aux:
  "no_double x \<Longrightarrow> x = [] \<or> last x \<noteq> CHR ''_'' \<Longrightarrow>
   collapse_underscores x = (if x \<noteq> [] \<and> hd x = CHR ''_'' then tl x else x)"
proof (induction x)
  case Nil
  show ?case by (simp add: collapse_underscores_def)
next
  case (Cons c cs)
  let ?g = collapse_underscores
  let ?ne = "\<lambda>w::string. w \<noteq> []"
  show ?case
  proof (cases "c = CHR ''_''")
    case True
    with Cons.prems have cs: "cs \<noteq> []" "last cs \<noteq> CHR ''_''"
      by (auto split: if_splits)
    from Cons.prems True cs have hd: "hd cs \<noteq> CHR ''_''" by (cases cs) auto
    have nd: "no_double cs" using Cons.prems(1) by (rule no_double_tl)
    have "?g (c # cs) = ?g cs"
      using True by (simp add: collapse_underscores_def)
    also have "\<dots> = cs" using Cons.IH [OF nd] cs hd by simp
    finally show ?thesis using True by simp
  next
    case cn: False
    from split_on_hd_other [OF cn, of cs] obtain w ws where
      sp: "split_on (CHR ''_'') cs = w # ws" "split_on (CHR ''_'') (c # cs) = (c # w) # ws"
      by blast
    have gx: "?g (c # cs) = join ''_'' ((c # w) # filter ?ne ws)"
      unfolding collapse_underscores_def sp by simp
    show ?thesis
    proof (cases "cs = []")
      case True
      with sp have "w = []" "ws = []" by simp_all
      with gx True cn show ?thesis by simp
    next
      case ne: False
      with Cons.prems have last: "last cs \<noteq> CHR ''_''" by simp
      have nd: "no_double cs" using Cons.prems(1) by (rule no_double_tl)
      have ih: "?g cs = (if hd cs = CHR ''_'' then tl cs else cs)"
        using Cons.IH [OF nd] ne last by simp
      have gcs: "?g cs = join ''_'' (filter ?ne (w # ws))"
        unfolding collapse_underscores_def sp ..
      obtain d cs' where cs: "cs = d # cs'" using ne by (cases cs) auto
      show ?thesis
      proof (cases "d = CHR ''_''")
        case True
        then have w: "w = []" using sp(1) cs by simp
        have tl_ne: "cs' \<noteq> []" using last cs True by auto
        have "join ''_'' (filter ?ne ws) = cs'"
          using gcs ih w cs True by simp
        moreover from this tl_ne obtain v vs where "filter ?ne ws = v # vs"
          by (cases "filter ?ne ws") auto
        ultimately have "join ''_'' ([c] # filter ?ne ws) = c # CHR ''_'' # cs'"
          by simp
        then show ?thesis using gx w cs True cn by simp
      next
        case dn: False
        from split_on_hd_other [OF dn, of cs'] sp(1) cs obtain w' where w: "w = d # w'"
          by auto
        have "join ''_'' (w # filter ?ne ws) = cs"
          using gcs ih w cs dn by simp
        then have "join ''_'' ((c # w) # filter ?ne ws) = c # cs"
          by (simp add: join_Cons_head)
        then show ?thesis using gx cn by simp
      qed
    qed
  qed
qed

lemma replace_invalid_map:
  "replace_invalid s = map (\<lambda>c. if c \<in> set invalid_chars then CHR ''_'' else c) s"
  by (simp add: replace_invalid_def invalid_chars_def replace_char_def)

lemma replace_invalid_clean: "set s \<inter> set invalid_chars = {} \<Longrightarrow> replace_invalid s = s"
  unfolding replace_invalid_map by (induction s) auto

lemma replace_invalid_set: "set (replace_invalid s) \<inter> set invalid_chars = {}"
  unfolding replace_invalid_map by (auto simp: invalid_chars_def)

lemma set_join: "set (join sep ws) \<subseteq> set sep \<union> \<Union> (set ` set ws)"
  by (induction sep ws rule: join.induct) auto

lemma set_split_on: "w \<in> set (split_on sep s) \<Longrightarrow> set w \<subseteq> set s"
proof (induction s arbitrary: w)
  case Nil
  then show ?case by simp
next
  case (Cons c cs)
  obtain v vs where sp: "split_on sep cs = v # vs"
    using split_on_nonempty [of sep cs] by (cases "split_on sep cs") auto
  show ?case
  proof (cases "c = sep")
    case True
    with Cons show ?thesis by auto
  next
    case False
    with Cons.prems sp have "w = c # v \<or> w \<in> set vs" by simp
    then show ?thesis
      using Cons.IH [of v] Cons.IH [of w] sp by auto
  qed
qed

lemma set_collapse: "set (collapse_underscores x) \<subseteq> insert (CHR ''_'') (set x)"
proof -
  let ?ws = "filter (\<lambda>w. w \<noteq> []) (split_on (CHR ''_'') x)"
  have b: "\<Union> (set ` set ?ws) \<subseteq> set x"
    using set_split_on [of _ "CHR ''_''" x] by auto
  have a: "set (join ''_'' ?ws) \<subseteq> insert (CHR ''_'') (\<Union> (set ` set ?ws))"
    using set_join [of "''_''" ?ws] by simp
  from a b show ?thesis
    unfolding collapse_underscores_def by blast
qed

lemma set_strip: "set (strip x) \<subseteq> set x"
proof -
  have "set (dropWhile is_space (rev (dropWhile is_space x)))
          \<subseteq> set (rev (dropWhile is_space x))"
    by (auto dest: set_dropWhileD)
  also have "\<dots> \<subseteq> set x"
    by (auto dest: set_dropWhileD)
  finally show ?thesis by (simp add: strip_def)
qed

lemma sanitize_clean: "set (sanitize_filename s) \<inter> set invalid_chars = {}"
proof -
  have "set (sanitize_filename s) \<subseteq> insert (CHR ''_'') (set (replace_invalid s))"
    unfolding sanitize_filename_def using set_strip set_collapse by blast
  moreover have "CHR ''_'' \<notin> set invalid_chars" by (simp add: invalid_chars_def)
  ultimately show ?thesis using replace_invalid_set [of s] by blast
qed

lemma strip_strip: "strip (strip x) = strip x"
proof -
  let ?d = "dropWhile is_space x"
  let ?e = "dropWhile is_space (rev ?d)"
  have r: "strip x = rev ?e" by (simp add: strip_def)
  have head: "dropWhile is_space (rev ?e) = rev ?e"
  proof (cases "rev ?e = []")
    case True
    show ?thesis unfolding True by simp
  next
    case False
    then obtain a as where ce: "rev ?e = a # as" by (cases "rev ?e") auto
    obtain t where t: "?d = rev ?e @ t"
      using rev_dropWhile_rev_prefix [of ?d is_space] by blast
    have da: "?d = a # as @ t" using t unfolding ce by simp
    have "\<not> is_space a" using hd_dropWhile [of is_space x] unfolding da by simp
    then show ?thesis unfolding ce by simp
  qed
  show ?thesis
    unfolding r unfolding strip_def head by simp
qed

lemma sanitize_no_double: "no_double (sanitize_filename s)"
  unfolding sanitize_filename_def by (intro no_double_strip no_double_collapse)

text \<open>
  Claim C2, as amended. Sanitizing an already sanitized name returns it unchanged
  whenever the sanitized name neither begins nor ends with an underscore. (The sanitizer
  trims white space after it has collapsed the underscores, so a name such as \<open>" _a"\<close>
  is sanitized to \<open>"_a"\<close>, which a second pass turns into \<open>"a"\<close>.)
\<close>

theorem sanitize_idempotent_without_edge_underscore:
  assumes "\<not> startswith (sanitize_filename s) ''_''"
    and "\<not> endswith (sanitize_filename s) ''_''"
  shows "sanitize_filename (sanitize_filename s) = sanitize_filename s"
proof -
  let ?r = "sanitize_filename s"
  have hd: "?r = [] \<or> hd ?r \<noteq> CHR ''_''"
    using assms(1) by (cases ?r) (auto simp: startswith_def)
  have last: "?r = [] \<or> last ?r \<noteq> CHR ''_''"
  proof (cases "?r = []")
    case True then show ?thesis by simp
  next
    case False
    then have "?r = butlast ?r @ [last ?r]" by simp
    then have "drop (length ?r - 1) ?r = [last ?r]"
      by (metis append_eq_conv_conj length_butlast)
    with assms(2) False show ?thesis
      by (auto simp: endswith_def Suc_le_eq)
  qed
  have 1: "replace_invalid ?r = ?r"
    by (rule replace_invalid_clean [OF sanitize_clean])
  have 2: "collapse_underscores ?r = ?r"
    using collapse_fix_aux [OF sanitize_no_double last] hd by auto
  have 3: "strip ?r = ?r"
    unfolding sanitize_filename_def by (rule strip_strip)
  show ?thesis
    by (subst (1) sanitize_filename_def) (simp only: 1 2 3)
qed

theorem sanitize_idempotent_without_edge_underscore_witness:
  "\<not> startswith (sanitize_filename ''a<b>>c  '') ''_'' \<and>
   \<not> endswith (sanitize_filename ''a<b>>c  '') ''_'' \<and>
   sanitize_filename ''a<b>>c  '' = ''a_b_c'' \<and>
   sanitize_filename (sanitize_filename ''a<b>>c  '') = sanitize_filename ''a<b>>c  ''"
proof -
  have e: "sanitize_filename ''a<b>>c  '' = ''a_b_c''"
    by (simp add: sanitize_filename_def replace_invalid_def invalid_chars_def replace_char_def
          collapse_underscores_def strip_def is_space_def)
  have h1: "\<not> startswith (sanitize_filename ''a<b>>c  '') ''_''"
    unfolding e by (simp add: startswith_def)
  have h2: "\<not> endswith (sanitize_filename ''a<b>>c  '') ''_''"
    unfolding e by (simp add: endswith_def)
  from sanitize_idempotent_without_edge_underscore [OF h1 h2] e h1 h2
  show ?thesis by simp
qed

text \<open>
  The claim as first stated fails: the sanitized form of \<open>" _a"\<close> is \<open>"_a"\<close>, and
  sanitizing that gives \<open>"a"\<close>.
\<close>

theorem sanitize_not_idempotent_counterexample:
  "sanitize_filename '' _a'' = ''_a'' \<and> sanitize_filename (sanitize_filename '' _a'') = ''a''"
  by (simp add: sanitize_filename_def replace_invalid_def invalid_chars_def replace_char_def
        collapse_underscores_def strip_def is_space_def)

section \<open>The sequential renaming phase\<close>

lemma set_somes: "set (somes xs) = {x. Some x \<in> set xs}"
  by (induction xs rule: somes.induct) auto

lemma attempts_list: "[0..<max_retries] = [0, 1, 2, 3, 4]"
  by (simp add: max_retries_def upt_rec)

lemma rename_attempts_result:
  assumes "file_path r |\<in>| names"
  shows "rename_attempts fails new [0..<max_retries] (names, r) =
           (if all_attempts_fail fails (file_path r) then (names, r\<lparr>status := ''invalid''\<rparr>)
            else (finsert new (names |-| {|file_path r|}), r\<lparr>file_path := new\<rparr>))"
  using assms
  unfolding all_attempts_fail_def attempts_list
  by (simp add: os_rename_def max_retries_def)

lemma rename_one_outcome:
  assumes d: "file_path r |\<in>| disk st" and e: "file_path r |\<in>| existing_files st"
    and v: "status r = ''valid''" "1 \<le> confidence r"
  shows "rename_one title fails st r =
           (let n = get_unique_filename (target_base title r) (extension_of r) (existing_files st)
            in \<lparr>existing_files = finsert n (existing_files st),
                disk = (if all_attempts_fail fails (file_path r) then disk st
                        else finsert n (disk st |-| {|file_path r|})),
                rename_results = rename_results st @ [outcome fails r (Some n)]\<rparr>)"
proof -
  let ?n = "get_unique_filename (target_base title r) (extension_of r) (existing_files st)"
  have "?n |\<notin>| existing_files st" by (rule get_unique_filename_fresh)
  with e have ne: "file_path r \<noteq> ?n" by auto
  show ?thesis
    using v ne rename_attempts_result [OF d, of fails ?n]
    by (simp add: rename_one_def Let_def outcome_def)
qed

lemma rename_one_skip:
  "\<not> (status r = ''valid'' \<and> 1 \<le> confidence r) \<Longrightarrow>
   rename_one title fails st r = st\<lparr>rename_results := rename_results st @ [outcome fails r None]\<rparr>"
  by (auto simp: rename_one_def outcome_def)


lemma file_path_outcome:
  "file_path (outcome fails r a) = file_path r \<or> a = Some (file_path (outcome fails r a))"
  by (cases a) (auto simp: outcome_def)

lemma rename_one_inv:
  assumes inv: "batch_inv st (r # rs)"
  shows "batch_inv (rename_one title fails st r) rs"
proof (cases "status r = ''valid'' \<and> 1 \<le> confidence r")
  case False
  then show ?thesis
    using inv by (auto simp: rename_one_skip batch_inv_def outcome_def)
next
  case True
  let ?n = "get_unique_filename (target_base title r) (extension_of r) (existing_files st)"
  have fresh: "?n |\<notin>| existing_files st" by (rule get_unique_filename_fresh)
  from inv have d: "file_path r |\<in>| disk st" and e: "file_path r |\<in>| existing_files st"
    by (auto simp: batch_inv_def)
  have st': "rename_one title fails st r =
           \<lparr>existing_files = finsert ?n (existing_files st),
            disk = (if all_attempts_fail fails (file_path r) then disk st
                    else finsert ?n (disk st |-| {|file_path r|})),
            rename_results = rename_results st @ [outcome fails r (Some ?n)]\<rparr>"
    using rename_one_outcome [OF d e, of title fails] True by (simp add: Let_def)
  show ?thesis
  proof (cases "all_attempts_fail fails (file_path r)")
    case True
    then have "file_path (outcome fails r (Some ?n)) = file_path r"
      by (simp add: outcome_def)
    with inv True show ?thesis
      unfolding st' batch_inv_def by auto
  next
    case False
    then have o: "file_path (outcome fails r (Some ?n)) = ?n"
      by (simp add: outcome_def)
    let ?D = "set (map file_path (rename_results st))" and ?R = "set (map file_path rs)"
    from inv have i: "distinct (map file_path (rename_results st))" "distinct (map file_path rs)"
      "?D \<inter> ?R = {}" "file_path r \<notin> ?D" "file_path r \<notin> ?R"
      "?D \<subseteq> fset (existing_files st)" "?R \<subseteq> fset (existing_files st)"
      "?D \<subseteq> fset (disk st)" "?R \<subseteq> fset (disk st)"
      unfolding batch_inv_def by auto
    from i(6,7) fresh have nn: "?n \<notin> ?D" "?n \<notin> ?R" by auto
    have c1: "distinct (map file_path (rename_results st @ [outcome fails r (Some ?n)])
                @ map file_path rs)"
      using i(1,2,3) nn o by auto
    have c2: "set (map file_path (rename_results st @ [outcome fails r (Some ?n)])
                @ map file_path rs) \<subseteq> fset (finsert ?n (existing_files st))"
      using i(6,7) o by auto
    have c3: "set (map file_path (rename_results st @ [outcome fails r (Some ?n)])
                @ map file_path rs) \<subseteq> fset (finsert ?n (disk st |-| {|file_path r|}))"
    proof -
      have a: "\<forall>x\<in>set (rename_results st). file_path x \<noteq> file_path r"
        and b: "\<forall>x\<in>set rs. file_path x \<noteq> file_path r"
        using i(4,5) by (metis image_eqI set_map)+
      show ?thesis using a b i(8,9) o by auto
    qed
    show ?thesis
      unfolding st' batch_inv_def using False c1 c2 c3 by simp
  qed
qed

lemma rename_one_registry:
  "existing_files (rename_one title fails st r) =
     (case assign_names title (existing_files st) [r] of
        [Some n] \<Rightarrow> finsert n (existing_files st)
      | _ \<Rightarrow> existing_files st)"
  by (auto simp: rename_one_def Let_def split: prod.splits)

lemma rename_one_results:
  assumes inv: "batch_inv st (r # rs)"
  shows "rename_results (rename_one title fails st r) =
           rename_results st @ [outcome fails r (hd (assign_names title (existing_files st) [r]))]"
proof (cases "status r = ''valid'' \<and> 1 \<le> confidence r")
  case False
  then show ?thesis by (auto simp: rename_one_skip)
next
  case True
  from inv have d: "file_path r |\<in>| disk st" and e: "file_path r |\<in>| existing_files st"
    by (auto simp: batch_inv_def)
  show ?thesis
    using rename_one_outcome [OF d e, of title fails] True by (simp add: Let_def)
qed

lemma assign_names_Cons:
  "assign_names title E (r # rs) =
     hd (assign_names title E [r]) #
     assign_names title (case assign_names title E [r] of [Some n] \<Rightarrow> finsert n E | _ \<Rightarrow> E) rs"
  by (simp add: Let_def)

lemma phase2_trace:
  "batch_inv st rs \<Longrightarrow>
   rename_results (phase2 title fails st rs) =
     rename_results st @
     map2 (outcome fails) rs (assign_names title (existing_files st) rs) \<and>
   batch_inv (phase2 title fails st rs) []"
proof (induction rs arbitrary: st)
  case Nil
  then show ?case by simp
next
  case (Cons r rs)
  let ?st = "rename_one title fails st r"
  have inv': "batch_inv ?st rs" by (rule rename_one_inv [OF Cons.prems])
  from Cons.IH [OF inv'] have ih:
    "rename_results (phase2 title fails ?st rs) =
       rename_results ?st @ map2 (outcome fails) rs (assign_names title (existing_files ?st) rs)"
    "batch_inv (phase2 title fails ?st rs) []" by simp_all
  have "rename_results (phase2 title fails st (r # rs)) =
          rename_results st @
          outcome fails r (hd (assign_names title (existing_files st) [r])) #
          map2 (outcome fails) rs (assign_names title (existing_files ?st) rs)"
    using ih(1) rename_one_results [OF Cons.prems, of title fails] by simp
  also have "\<dots> = rename_results st @
          map2 (outcome fails) (r # rs) (assign_names title (existing_files st) (r # rs))"
    by (subst (2) assign_names_Cons) (simp add: rename_one_registry)
  finally show ?case using ih(2) by simp
qed

lemma assign_names_length: "length (assign_names title E rs) = length rs"
  by (induction rs arbitrary: E) (simp_all add: Let_def)

lemma assign_names_fresh:
  "Some n \<in> set (assign_names title E rs) \<Longrightarrow> n |\<notin>| E"
proof (induction rs arbitrary: E)
  case Nil
  then show ?case by simp
next
  case (Cons r rs)
  show ?case
  proof (cases "status r = ''valid'' \<and> 1 \<le> confidence r")
    case False
    with Cons show ?thesis by auto
  next
    case True
    let ?n = "get_unique_filename (target_base title r) (extension_of r) E"
    from Cons.prems True have "n = ?n \<or> Some n \<in> set (assign_names title (finsert ?n E) rs)"
      by (auto simp: Let_def)
    then show ?thesis
    proof
      assume "n = ?n" then show ?thesis using get_unique_filename_fresh by simp
    next
      assume "Some n \<in> set (assign_names title (finsert ?n E) rs)"
      from Cons.IH [OF this] show ?thesis by simp
    qed
  qed
qed

lemma assign_names_distinct: "distinct (somes (assign_names title E rs))"
proof (induction rs arbitrary: E)
  case Nil
  show ?case by simp
next
  case (Cons r rs)
  show ?case
  proof (cases "status r = ''valid'' \<and> 1 \<le> confidence r")
    case False
    then have "assign_names title E (r # rs) = None # assign_names title E rs" by auto
    then show ?thesis using Cons by simp
  next
    case True
    let ?n = "get_unique_filename (target_base title r) (extension_of r) E"
    have "?n \<notin> set (somes (assign_names title (finsert ?n E) rs))"
    proof
      assume "?n \<in> set (somes (assign_names title (finsert ?n E) rs))"
      then have "Some ?n \<in> set (assign_names title (finsert ?n E) rs)"
        by (simp add: set_somes)
      from assign_names_fresh [OF this] show False by simp
    qed
    with Cons True show ?thesis by (simp add: Let_def)
  qed
qed


lemma process_file_path: "process_file w f = Some r \<Longrightarrow> file_path r = f"
  by (auto simp: process_file_def invalid_result_def result_of_def
           split: option.splits if_splits)

lemma process_file_package: "endswith f ''.apk'' \<or> endswith f ''.ipa'' \<Longrightarrow> process_file w f \<noteq> None"
  by (auto simp: process_file_def split: option.splits)

lemma phase1_paths:
  "set completed \<subseteq> set (files_to_process listing) \<Longrightarrow>
   map file_path (phase1 w completed) = completed"
proof (induction completed)
  case Nil
  show ?case by (simp add: phase1_def List.map_filter_simps)
next
  case (Cons f fs)
  then have "endswith f ''.apk'' \<or> endswith f ''.ipa''"
    by (auto simp: files_to_process_def)
  then obtain r where r: "process_file w f = Some r"
    using process_file_package [of f w] by auto
  with Cons show ?case
    using process_file_path [OF r]
    by (simp add: phase1_def List.map_filter_simps)
qed

lemma initial_inv:
  assumes "distinct completed" "set completed \<subseteq> set (files_to_process listing)"
  shows "batch_inv (initial_batch listing) (phase1 w completed)"
  using assms phase1_paths [OF assms(2), of w]
  by (auto simp: batch_inv_def initial_batch_def files_to_process_def fset_of_list_elem)

lemma endswith_append: "endswith (x @ e) e"
  by (simp add: endswith_def)

lemma extension_of_cases: "extension_of r = ''.apk'' \<or> extension_of r = ''.ipa''"
  by (simp add: extension_of_def)

lemma get_unique_filename_ext:
  "endswith (get_unique_filename b e E) e"
  using get_unique_filename_shape [of b e E] endswith_append [of b e]
    endswith_append [of "b @ '' ('' @ str_nat n @ '')''" e for n]
  by (auto simp: numbered_def)

lemma assign_names_ext:
  "Some n \<in> set (assign_names title E rs) \<Longrightarrow> endswith n ''.apk'' \<or> endswith n ''.ipa''"
proof (induction rs arbitrary: E)
  case Nil
  then show ?case by simp
next
  case (Cons r rs)
  show ?case
  proof (cases "status r = ''valid'' \<and> 1 \<le> confidence r")
    case False
    with Cons show ?thesis by auto
  next
    case True
    let ?n = "get_unique_filename (target_base title r) (extension_of r) E"
    from Cons.prems True have "n = ?n \<or> Some n \<in> set (assign_names title (finsert ?n E) rs)"
      by (auto simp: Let_def)
    then show ?thesis
    proof
      assume "n = ?n"
      then show ?thesis
        using get_unique_filename_ext [of "target_base title r" "extension_of r" E]
          extension_of_cases [of r] by auto
    next
      assume "Some n \<in> set (assign_names title (finsert ?n E) rs)"
      from Cons.IH [OF this] show ?thesis .
    qed
  qed
qed

lemma assign_names_not_listed:
  assumes "Some n \<in> set (assign_names title (existing_files (initial_batch listing)) rs)"
  shows "n \<notin> set listing"
proof
  assume "n \<in> set listing"
  with assign_names_ext [OF assms] have "n |\<in>| existing_files (initial_batch listing)"
    by (auto simp: initial_batch_def files_to_process_def fset_of_list_elem)
  with assign_names_fresh [OF assms] show False by simp
qed

lemma assign_names_valid:
  "i < length rs \<Longrightarrow> status (rs ! i) = ''valid'' \<Longrightarrow> 1 \<le> confidence (rs ! i) \<Longrightarrow>
   \<exists>n. assign_names title E rs ! i = Some n"
proof (induction rs arbitrary: E i)
  case Nil
  then show ?case by simp
next
  case (Cons r rs)
  then show ?case
    by (cases i) (auto simp: Let_def)
qed

lemma main_batch_trace:
  assumes "distinct completed" "set completed \<subseteq> set (files_to_process listing)"
  shows "rename_results (main_batch title w fails listing completed) =
           map2 (outcome fails) (phase1 w completed)
             (assign_names title (existing_files (initial_batch listing)) (phase1 w completed))"
    and "batch_inv (main_batch title w fails listing completed) []"
  using phase2_trace [OF initial_inv [OF assms], of title fails w]
  by (simp_all add: main_batch_def initial_batch_def)

lemma main_batch_nth:
  assumes "distinct completed" "set completed \<subseteq> set (files_to_process listing)"
    and "i < length (phase1 w completed)"
  shows "rename_results (main_batch title w fails listing completed) ! i =
           outcome fails (phase1 w completed ! i)
             (assign_names title (existing_files (initial_batch listing)) (phase1 w completed) ! i)"
    and "assign_names title (existing_files (initial_batch listing)) (phase1 w completed) ! i
           \<in> set (assign_names title (existing_files (initial_batch listing)) (phase1 w completed))"
    and "file_path (phase1 w completed ! i) |\<in>| existing_files (initial_batch listing)"
    and "file_path (rename_results (main_batch title w fails listing completed) ! i)
           |\<in>| disk (main_batch title w fails listing completed)"
proof -
  let ?rs = "phase1 w completed"
  let ?as = "assign_names title (existing_files (initial_batch listing)) ?rs"
  let ?final = "main_batch title w fails listing completed"
  have len: "length ?as = length ?rs" by (rule assign_names_length)
  have outs: "rename_results ?final = map2 (outcome fails) ?rs ?as"
    by (rule main_batch_trace(1) [OF assms(1,2), where title = title and w = w and fails = fails])
  show "rename_results ?final ! i = outcome fails (?rs ! i) (?as ! i)"
    unfolding outs using assms(3) len by simp
  show "?as ! i \<in> set ?as" using assms(3) len by simp
  have "file_path (?rs ! i) \<in> set (map file_path ?rs)"
    using assms(3) by (metis length_map nth_map nth_mem)
  then show "file_path (?rs ! i) |\<in>| existing_files (initial_batch listing)"
    using initial_inv [OF assms(1,2), of w] by (auto simp: batch_inv_def)
  have li: "i < length (rename_results ?final)"
    unfolding outs using assms(3) len by simp
  have "file_path (rename_results ?final ! i) \<in> set (map file_path (rename_results ?final))"
    using li by (metis length_map nth_map nth_mem)
  then show "file_path (rename_results ?final ! i) |\<in>| disk ?final"
    using main_batch_trace(2) [OF assms(1,2), where title = title and w = w and fails = fails] by (auto simp: batch_inv_def)
qed

lemma game_phase1:
  "phase1 game_world [''a.ipa'', ''b.ipa''] =
     [game_result ''com.example.first'' ''a.ipa'', game_result ''com.example.second'' ''b.ipa'']"
  "phase1 game_world [''b.ipa'', ''a.ipa''] =
     [game_result ''com.example.second'' ''b.ipa'', game_result ''com.example.first'' ''a.ipa'']"
  by code_simp+

lemma game_listing:
  "files_to_process [''a.ipa'', ''b.ipa''] = [''a.ipa'', ''b.ipa'']"
  by code_simp

lemma game_run_enumeration_order:
  "map (\<lambda>r. (package r, file_path r))
     (rename_results (main_batch (\<lambda>s. s) game_world never_fails
        [''a.ipa'', ''b.ipa''] [''a.ipa'', ''b.ipa'']))
   = [(''com.example.first'', ''Game v1.0.ipa''), (''com.example.second'', ''Game v1.0 (1).ipa'')]"
  by code_simp

lemma game_run_other_order:
  "map (\<lambda>r. (package r, file_path r))
     (rename_results (main_batch (\<lambda>s. s) game_world never_fails
        [''a.ipa'', ''b.ipa''] [''b.ipa'', ''a.ipa'']))
   = [(''com.example.second'', ''Game v1.0.ipa''), (''com.example.first'', ''Game v1.0 (1).ipa'')]"
  by code_simp

lemma game_names_other_order:
  "somes (assign_names (\<lambda>s. s) (existing_files (initial_batch [''a.ipa'', ''b.ipa'']))
            (phase1 game_world [''b.ipa'', ''a.ipa'']))
   = [''Game v1.0.ipa'', ''Game v1.0 (1).ipa'']"
  by code_simp

lemma game_run_first_fails:
  "map (\<lambda>r. (file_path r, status r))
     (rename_results (main_batch (\<lambda>s. s) game_world first_fails
        [''a.ipa'', ''b.ipa''] [''a.ipa'', ''b.ipa'']))
   = [(''a.ipa'', ''invalid''), (''Game v1.0 (1).ipa'', ''valid'')]"
  "disk (main_batch (\<lambda>s. s) game_world first_fails
        [''a.ipa'', ''b.ipa''] [''a.ipa'', ''b.ipa''])
   = {|''a.ipa'', ''Game v1.0 (1).ipa''|}"
  by code_simp+

text \<open>
  Claim C3. The registry is seeded from the listing of the directory and every name is
  looked up in it and added to it before the file is renamed. For every batch (the
  results arrive in any order of the files to process): the file names of the results
  after the renaming phase are pairwise different; each of them is the file's own
  earlier name or a name that no entry of the directory had; and the names the phase
  assigned, whether or not the rename succeeded, are pairwise different and none of them
  was an entry of the directory.
\<close>

theorem batch_names_unique:
  assumes d: "distinct completed" and p: "set completed = set (files_to_process listing)"
  shows "distinct (map file_path (rename_results (main_batch title w fails listing completed))) \<and>
         list_all2 (\<lambda>r r'. file_path r' = file_path r \<or> file_path r' \<notin> set listing)
           (phase1 w completed) (rename_results (main_batch title w fails listing completed)) \<and>
         distinct (somes (assign_names title (existing_files (initial_batch listing))
                            (phase1 w completed))) \<and>
         set (somes (assign_names title (existing_files (initial_batch listing))
                       (phase1 w completed))) \<inter> set listing = {}"
proof (intro conjI)
  let ?rs = "phase1 w completed"
  let ?as = "assign_names title (existing_files (initial_batch listing)) ?rs"
  let ?final = "main_batch title w fails listing completed"
  from p have s: "set completed \<subseteq> set (files_to_process listing)" by simp
  have len: "length ?as = length ?rs" by (rule assign_names_length)
  have outs: "rename_results ?final = map2 (outcome fails) ?rs ?as"
    by (rule main_batch_trace(1) [OF d s, where title = title and w = w and fails = fails])
  show "distinct (map file_path (rename_results ?final))"
    using main_batch_trace(2) [OF d s, where title = title and w = w and fails = fails] by (simp add: batch_inv_def)
  show "list_all2 (\<lambda>r r'. file_path r' = file_path r \<or> file_path r' \<notin> set listing)
          ?rs (rename_results ?final)"
  proof (subst list_all2_conv_all_nth, intro conjI allI impI)
    show "length ?rs = length (rename_results ?final)"
      unfolding outs using len by simp
  next
    fix i assume i: "i < length ?rs"
    note n = main_batch_nth(1) [OF d s i, where title = title and fails = fails]
      main_batch_nth(2) [OF d s i, where title = title]
      main_batch_nth(3) [OF d s i]
      main_batch_nth(4) [OF d s i, where title = title and fails = fails]
    from file_path_outcome [of fails "?rs ! i" "?as ! i"]
    show "file_path (rename_results ?final ! i) = file_path (?rs ! i) \<or>
          file_path (rename_results ?final ! i) \<notin> set listing"
    proof
      assume "file_path (outcome fails (?rs ! i) (?as ! i)) = file_path (?rs ! i)"
      then show ?thesis unfolding n(1) by simp
    next
      assume "?as ! i = Some (file_path (outcome fails (?rs ! i) (?as ! i)))"
      with n(2) have "Some (file_path (outcome fails (?rs ! i) (?as ! i))) \<in> set ?as"
        by simp
      from assign_names_not_listed [OF this] show ?thesis unfolding n(1) by simp
    qed
  qed
  show "distinct (somes ?as)" by (rule assign_names_distinct)
  show "set (somes ?as) \<inter> set listing = {}"
    using assign_names_not_listed [of _ title listing ?rs] by (auto simp: set_somes)
qed

theorem batch_names_unique_witness:
  "distinct [''b.ipa'', ''a.ipa''] \<and>
   set [''b.ipa'', ''a.ipa''] = set (files_to_process [''a.ipa'', ''b.ipa'']) \<and>
   distinct (map file_path (rename_results (main_batch (\<lambda>s. s) game_world never_fails
        [''a.ipa'', ''b.ipa''] [''b.ipa'', ''a.ipa'']))) \<and>
   map (\<lambda>r. (package r, file_path r))
     (rename_results (main_batch (\<lambda>s. s) game_world never_fails
        [''a.ipa'', ''b.ipa''] [''b.ipa'', ''a.ipa'']))
   = [(''com.example.second'', ''Game v1.0.ipa''), (''com.example.first'', ''Game v1.0 (1).ipa'')] \<and>
   set (somes (assign_names (\<lambda>s. s) (existing_files (initial_batch [''a.ipa'', ''b.ipa'']))
            (phase1 game_world [''b.ipa'', ''a.ipa''])))
     \<inter> set [''a.ipa'', ''b.ipa''] = {}"
proof -
  have h1: "distinct [''b.ipa'', ''a.ipa'']" by simp
  have h2: "set [''b.ipa'', ''a.ipa''] = set (files_to_process [''a.ipa'', ''b.ipa''])"
    unfolding game_listing by auto
  from batch_names_unique [OF h1 h2, where title = "\<lambda>s. s" and w = game_world
      and fails = never_fails]
  show ?thesis
    using h1 h2 game_run_other_order by simp
qed

text \<open>
  Claim C8. A valid file whose rename is refused on every one of the \<open>max_retries\<close>
  attempts: its status becomes \<open>invalid\<close> (the value the source writes for a failed
  file), its name in the directory is still the original one, its row is in the report
  at its position, and every result after it is still processed: a later valid file for
  which some attempt is accepted is renamed to a new name that is in the directory at
  the end.
\<close>

theorem rename_failure_isolated:
  assumes d: "distinct completed" and p: "set completed = set (files_to_process listing)"
    and split: "phase1 w completed = pre @ r # post"
    and v: "status r = ''valid''" "1 \<le> confidence r"
    and f: "all_attempts_fail fails (file_path r)"
  shows "length (rename_results (main_batch title w fails listing completed))
           = length (pre @ r # post) \<and>
         rename_results (main_batch title w fails listing completed) ! length pre
           = r\<lparr>status := ''invalid''\<rparr> \<and>
         file_path r |\<in>| disk (main_batch title w fails listing completed) \<and>
         report (main_batch title w fails listing completed) ! length pre
           = (file_path r, name r, package r, version r, size_bytes r, confidence r) \<and>
         list_all2
           (\<lambda>q q'. status q = ''valid'' \<and> 1 \<le> confidence q \<and>
                    \<not> all_attempts_fail fails (file_path q) \<longrightarrow>
                    status q' = ''valid'' \<and> file_path q' \<noteq> file_path q \<and>
                    file_path q' |\<in>| disk (main_batch title w fails listing completed))
           post (drop (Suc (length pre))
                   (rename_results (main_batch title w fails listing completed)))"
proof -
  let ?rs = "phase1 w completed"
  let ?E = "existing_files (initial_batch listing)"
  let ?as = "assign_names title ?E ?rs"
  let ?final = "main_batch title w fails listing completed"
  let ?outs = "rename_results ?final"
  from p have s: "set completed \<subseteq> set (files_to_process listing)" by simp
  have len: "length ?as = length ?rs" by (rule assign_names_length)
  have outs: "?outs = map2 (outcome fails) ?rs ?as"
    by (rule main_batch_trace(1) [OF d s, where title = title and w = w and fails = fails])
  have lo: "length ?outs = length (pre @ r # post)"
    unfolding outs using len split by simp
  have i: "length pre < length ?rs" using split by simp
  have ri: "?rs ! length pre = r" using split by simp
  note n = main_batch_nth(1) [OF d s i, where title = title and fails = fails]
      main_batch_nth(2) [OF d s i, where title = title]
      main_batch_nth(3) [OF d s i]
      main_batch_nth(4) [OF d s i, where title = title and fails = fails]
  obtain nm where nm: "?as ! length pre = Some nm"
    using assign_names_valid [OF i, of title ?E] v ri by auto
  have o: "?outs ! length pre = r\<lparr>status := ''invalid''\<rparr>"
    unfolding n(1) ri nm using f by (simp add: outcome_def)
  have dk: "file_path r |\<in>| disk ?final"
    using n(4) unfolding o by simp
  have rep: "report ?final ! length pre
               = (file_path r, name r, package r, version r, size_bytes r, confidence r)"
    using lo o by (simp add: report_def)
  have rest: "list_all2
           (\<lambda>q q'. status q = ''valid'' \<and> 1 \<le> confidence q \<and>
                    \<not> all_attempts_fail fails (file_path q) \<longrightarrow>
                    status q' = ''valid'' \<and> file_path q' \<noteq> file_path q \<and>
                    file_path q' |\<in>| disk ?final)
           post (drop (Suc (length pre)) ?outs)"
  proof (subst list_all2_conv_all_nth, intro conjI allI impI)
    show "length post = length (drop (Suc (length pre)) ?outs)"
      using lo by simp
  next
    fix j assume j: "j < length post"
      and q: "status (post ! j) = ''valid'' \<and> 1 \<le> confidence (post ! j) \<and>
              \<not> all_attempts_fail fails (file_path (post ! j))"
    let ?k = "Suc (length pre) + j"
    have k: "?k < length ?rs" using split j by simp
    have rk: "?rs ! ?k = post ! j"
      using split by (simp add: nth_append)
    have dk: "drop (Suc (length pre)) ?outs ! j = ?outs ! ?k"
      using lo j by simp
    note m = main_batch_nth(1) [OF d s k, where title = title and fails = fails]
      main_batch_nth(2) [OF d s k, where title = title]
      main_batch_nth(3) [OF d s k]
      main_batch_nth(4) [OF d s k, where title = title and fails = fails]
    obtain nn where nn: "?as ! ?k = Some nn"
      using assign_names_valid [OF k, of title ?E] q rk by auto
    have ok: "?outs ! ?k = (post ! j)\<lparr>file_path := nn\<rparr>"
      unfolding m(1) rk nn using q by (simp add: outcome_def)
    have "nn |\<notin>| ?E"
      using assign_names_fresh [of nn title ?E ?rs] m(2) nn by simp
    with m(3) have ne: "nn \<noteq> file_path (post ! j)" unfolding rk by auto
    have on: "nn |\<in>| disk ?final" using m(4) unfolding ok by simp
    show "status (drop (Suc (length pre)) ?outs ! j) = ''valid''"
      "file_path (drop (Suc (length pre)) ?outs ! j) \<noteq> file_path (post ! j)"
      "file_path (drop (Suc (length pre)) ?outs ! j) |\<in>| disk ?final"
      unfolding dk ok using q ne on by simp_all
  qed
  from lo o dk rep rest show ?thesis by blast
qed

theorem rename_failure_isolated_witness:
  "distinct [''a.ipa'', ''b.ipa''] \<and>
   set [''a.ipa'', ''b.ipa''] = set (files_to_process [''a.ipa'', ''b.ipa'']) \<and>
   phase1 game_world [''a.ipa'', ''b.ipa''] =
     [] @ game_result ''com.example.first'' ''a.ipa'' # [game_result ''com.example.second'' ''b.ipa''] \<and>
   all_attempts_fail first_fails (file_path (game_result ''com.example.first'' ''a.ipa'')) \<and>
   rename_results (main_batch (\<lambda>s. s) game_world first_fails
        [''a.ipa'', ''b.ipa''] [''a.ipa'', ''b.ipa'']) ! 0
     = (game_result ''com.example.first'' ''a.ipa'')\<lparr>status := ''invalid''\<rparr> \<and>
   ''a.ipa'' |\<in>| disk (main_batch (\<lambda>s. s) game_world first_fails
        [''a.ipa'', ''b.ipa''] [''a.ipa'', ''b.ipa'']) \<and>
   map (\<lambda>r. (file_path r, status r))
     (rename_results (main_batch (\<lambda>s. s) game_world first_fails
        [''a.ipa'', ''b.ipa''] [''a.ipa'', ''b.ipa'']))
   = [(''a.ipa'', ''invalid''), (''Game v1.0 (1).ipa'', ''valid'')]"
proof -
  have h1: "distinct [''a.ipa'', ''b.ipa'']" by simp
  have h2: "set [''a.ipa'', ''b.ipa''] = set (files_to_process [''a.ipa'', ''b.ipa''])"
    unfolding game_listing by simp
  have h3: "phase1 game_world [''a.ipa'', ''b.ipa''] =
     [] @ game_result ''com.example.first'' ''a.ipa'' # [game_result ''com.example.second'' ''b.ipa'']"
    using game_phase1(1) by simp
  have h4: "status (game_result ''com.example.first'' ''a.ipa'') = ''valid''"
    and h5: "1 \<le> confidence (game_result ''com.example.first'' ''a.ipa'')"
    by (simp_all add: game_result_def)
  have h6: "all_attempts_fail first_fails (file_path (game_result ''com.example.first'' ''a.ipa''))"
    by (simp add: all_attempts_fail_def attempts_list first_fails_def game_result_def)
  from rename_failure_isolated [OF h1 h2 h3 h4 h5 h6, where title = "\<lambda>s. s"]
  show ?thesis
    using h1 h2 h3 h6 game_run_first_fails(1) by (simp add: game_result_def)
qed

text \<open>
  Claim C7, as amended. The renaming phase processes the results in the order in which
  the worker processes completed, which \<open>as_completed\<close> does not tie to the order of
  enumeration. For that order the outcome is determined: the names are assigned
  sequentially, each valid result taking the first free name with respect to the registry
  seeded from the directory and the names assigned before it.
\<close>

theorem phase2_follows_completion_order:
  assumes d: "distinct completed" and p: "set completed = set (files_to_process listing)"
  shows "map file_path (phase1 w completed) = completed \<and>
         rename_results (main_batch title w fails listing completed) =
           map2 (outcome fails) (phase1 w completed)
             (assign_names title (existing_files (initial_batch listing)) (phase1 w completed))"
proof -
  from p have s: "set completed \<subseteq> set (files_to_process listing)" by simp
  show ?thesis
    using phase1_paths [OF s, of w] main_batch_trace(1) [OF d s, where title = title and w = w and fails = fails] by simp
qed

theorem phase2_follows_completion_order_witness:
  "distinct [''b.ipa'', ''a.ipa''] \<and>
   set [''b.ipa'', ''a.ipa''] = set (files_to_process [''a.ipa'', ''b.ipa'']) \<and>
   map file_path (phase1 game_world [''b.ipa'', ''a.ipa'']) = [''b.ipa'', ''a.ipa''] \<and>
   rename_results (main_batch (\<lambda>s. s) game_world never_fails
        [''a.ipa'', ''b.ipa''] [''b.ipa'', ''a.ipa'']) =
     map2 (outcome never_fails) (phase1 game_world [''b.ipa'', ''a.ipa''])
       (assign_names (\<lambda>s. s) (existing_files (initial_batch [''a.ipa'', ''b.ipa'']))
          (phase1 game_world [''b.ipa'', ''a.ipa''])) \<and>
   somes (assign_names (\<lambda>s. s) (existing_files (initial_batch [''a.ipa'', ''b.ipa'']))
            (phase1 game_world [''b.ipa'', ''a.ipa'']))
     = [''Game v1.0.ipa'', ''Game v1.0 (1).ipa'']"
proof -
  have h1: "distinct [''b.ipa'', ''a.ipa'']" by simp
  have h2: "set [''b.ipa'', ''a.ipa''] = set (files_to_process [''a.ipa'', ''b.ipa''])"
    unfolding game_listing by auto
  from phase2_follows_completion_order [OF h1 h2, where title = "\<lambda>s. s" and w = game_world
      and fails = never_fails]
  show ?thesis
    using h1 h2 game_names_other_order by simp
qed

text \<open>
  The claim as first stated fails: with the same two files and the same directory, a run
  in which \<open>b.ipa\<close> completes first processes it first, although \<open>a.ipa\<close> is enumerated
  first, and the two runs give the collision suffix to different files.
\<close>

theorem completion_order_counterexample:
  "files_to_process [''a.ipa'', ''b.ipa''] = [''a.ipa'', ''b.ipa''] \<and>
   map (\<lambda>r. (package r, file_path r))
     (rename_results (main_batch (\<lambda>s. s) game_world never_fails
        [''a.ipa'', ''b.ipa''] [''a.ipa'', ''b.ipa'']))
   = [(''com.example.first'', ''Game v1.0.ipa''), (''com.example.second'', ''Game v1.0 (1).ipa'')] \<and>
   map (\<lambda>r. (package r, file_path r))
     (rename_results (main_batch (\<lambda>s. s) game_world never_fails
        [''a.ipa'', ''b.ipa''] [''b.ipa'', ''a.ipa'']))
   = [(''com.example.second'', ''Game v1.0.ipa''), (''com.example.first'', ''Game v1.0 (1).ipa'')]"
  using game_listing game_run_enumeration_order game_run_other_order by simp

end
